theory Spec2Isabelle
  imports
    Complex_Main
    "HOL-Library.Char_ord"
    "HOL-Library.List_Lexorder"
    "HOL-Library.AList"
    "HOL-Library.Sublist"
begin

section \<open>The tutorial notebook \<open>convert_CBF.ipynb\<close>\<close>

text \<open>
  The notebook has five code cells:
  \<^verbatim>\<open>
  [1] import glob
      files = glob.glob("*.cbf")
      files.sort()
      print("Number of files: %s" % len(files))
  [2] dest_format = "edf"
      dest_dir = "edf_format"
  [3] import fabio, os
      if not os.path.exists(dest_dir):
          os.makedirs(dest_dir)
  [4] %%time
      for onefile in files:
          dst_name = os.path.join(dest_dir, os.path.splitext(onefile)[0] + "." + dest_format)
          fabio.open(onefile).convert(dest_format).save(dst_name)
  [5] print("The overall speed is %.1f frame/second"%(len(files)/5.64))
  \<close>
  The cells are run in order; a cell that raises stops the run.
\<close>

subsection \<open>The world: a file system, the codec, the trace of calls\<close>

type_synonym path = string
type_synonym bytes = string

datatype error =
    FileNotFoundError
  | FileExistsError
  | IsADirectoryError
  | NotADirectoryError
  | PermissionError
  | OSError
  | CodecError

text \<open>
  What the operating system has at a path:
  \<^item> \<open>File b\<close>: a regular file with the bytes \<open>b\<close>;
  \<^item> \<open>Dir\<close>: a directory;
  \<^item> \<open>BrokenLink\<close>: a symbolic link whose target does not exist and cannot be
    created, so that the path is taken but nothing can be read or written through it;
  \<^item> \<open>Refused e\<close>: nothing, and the operating system refuses to create anything
    there, raising \<open>e\<close> (\<open>PermissionError\<close> in a directory that is not writable,
    \<open>OSError\<close> on a full or read-only device).

  A symbolic link to an existing file or directory acts as its target in every call the
  notebook makes, and is represented by it.
\<close>

datatype entry = File bytes | Dir | BrokenLink | Refused error

text \<open>
  The file system, seen from the current directory: an association list from relative
  paths to what stands there. A key with no separator is a name in the current directory.
  At a path with no binding there is nothing, and the path can be created.
\<close>

type_synonym filesystem = "(path \<times> entry) list"

text \<open>
  The image library is an opaque collaborator. What it computes is a parameter of the
  model: how bytes decode to an image (\<open>None\<close>: the library raises), how an image
  is converted to a named format, and how an image encodes to bytes.
\<close>

record 'img codec =
  decode :: "bytes \<Rightarrow> 'img option"
  to_format :: "'img \<Rightarrow> string \<Rightarrow> 'img option"
  encode :: "'img \<Rightarrow> bytes option"

text \<open>Every call on the outside world and every printed line is recorded, in order.\<close>

datatype event =
    Print string
  | Makedirs path
  | Open path
  | Convert string
  | Save path

text \<open>
  The state of a run: the file system, the list object bound to the variable
  \<open>files\<close>, and the trace.
\<close>

record state =
  fsys :: filesystem
  files :: "path list"
  log :: "event list"

subsection \<open>Library functions of Python\<close>

text \<open>\<open>str(n)\<close> for a non-negative integer.\<close>

fun str_nat :: "nat \<Rightarrow> string" where
  "str_nat n =
     (if n < 10 then [''0123456789'' ! n]
      else str_nat (n div 10) @ [''0123456789'' ! (n mod 10)])"

declare str_nat.simps [simp del]

text \<open>
  \<open>"%.1f" % x\<close> for \<open>x \<ge> 0\<close>: \<open>x\<close> rounded to the nearest tenth, a tie
  going to the even digit. The float \<open>x\<close> is represented by the exact rational it
  approximates.
\<close>

definition round_half_even :: "rat \<Rightarrow> int" where
  "round_half_even q =
     (let f = \<lfloor>q\<rfloor>; r = q - of_int f in
      if r < 1 / 2 then f
      else if 1 / 2 < r then f + 1
      else if even f then f else f + 1)"

definition fmt_1f :: "rat \<Rightarrow> string" where
  "fmt_1f x =
     (let t = nat (round_half_even (x * 10)) in
      str_nat (t div 10) @ ''.'' @ str_nat (t mod 10))"

text \<open>\<open>s.rfind(c)\<close>: the highest index of \<open>c\<close> in \<open>s\<close>, or \<open>-1\<close>.\<close>

fun rfind_from :: "char \<Rightarrow> string \<Rightarrow> int \<Rightarrow> int \<Rightarrow> int" where
  "rfind_from c [] i found = found"
| "rfind_from c (x # xs) i found = rfind_from c xs (i + 1) (if x = c then i else found)"

definition rfind :: "char \<Rightarrow> string \<Rightarrow> int" where
  "rfind c s = rfind_from c s 0 (- 1)"

text \<open>
  \<open>os.path.splitext\<close> (\<open>genericpath._splitext\<close>):
  \<^verbatim>\<open>
  sepIndex = p.rfind(sep)
  dotIndex = p.rfind(extsep)
  if dotIndex > sepIndex:
      # skip all leading dots
      filenameIndex = sepIndex + 1
      while filenameIndex < dotIndex:
          if p[filenameIndex:filenameIndex+1] != extsep:
              return p[:dotIndex], p[dotIndex:]
          filenameIndex += 1
  return p, p[:0]
  \<close>
\<close>

function skip_leading_dots :: "string \<Rightarrow> int \<Rightarrow> int \<Rightarrow> string \<times> string" where
  "skip_leading_dots p filenameIndex dotIndex =
     (if filenameIndex < dotIndex then
        (if take 1 (drop (nat filenameIndex) p) \<noteq> ''.''
         then (take (nat dotIndex) p, drop (nat dotIndex) p)
         else skip_leading_dots p (filenameIndex + 1) dotIndex)
      else (p, []))"
  by pat_completeness auto
termination
  by (relation "measure (\<lambda>(p, filenameIndex, dotIndex). nat (dotIndex - filenameIndex))") auto

declare skip_leading_dots.simps [simp del]

definition splitext :: "path \<Rightarrow> string \<times> string" where
  "splitext p =
     (let sepIndex = rfind (CHR ''/'') p;
          dotIndex = rfind (CHR ''.'') p
      in if sepIndex < dotIndex then skip_leading_dots p (sepIndex + 1) dotIndex
         else (p, []))"

text \<open>
  \<open>os.path.join(a, b)\<close> (\<open>posixpath.join\<close>):
  \<^verbatim>\<open>
  if b.startswith(sep): path = b
  elif not path or path.endswith(sep): path += b
  else: path += sep + b
  \<close>
\<close>

definition join :: "path \<Rightarrow> path \<Rightarrow> path" where
  "join a b =
     (if take 1 b = ''/'' then b
      else if a = [] \<or> last a = CHR ''/'' then a @ b
      else a @ ''/'' @ b)"

text \<open>
  \<open>fnmatch\<close> for patterns built from literal characters, \<open>*\<close> and \<open>?\<close>.
\<close>

fun fnmatch :: "string \<Rightarrow> string \<Rightarrow> bool" where
  "fnmatch [] [] = True"
| "fnmatch [] (c # cs) = False"
| "fnmatch (p # ps) [] = (p = CHR ''*'' \<and> fnmatch ps [])"
| "fnmatch (p # ps) (c # cs) =
     (if p = CHR ''*'' then fnmatch ps (c # cs) \<or> fnmatch (p # ps) cs
      else (p = CHR ''?'' \<or> p = c) \<and> fnmatch ps cs)"

text \<open>
  \<open>os.path.lexists\<close>: something stands at the path, a broken link included.
  \<open>os.path.exists\<close>: the path can be followed to a file or a directory; it is
  \<open>False\<close> for a broken link.
\<close>

definition lexists :: "filesystem \<Rightarrow> path \<Rightarrow> bool" where
  "lexists fs p =
     (case map_of fs p of
        Some (File b) \<Rightarrow> True
      | Some Dir \<Rightarrow> True
      | Some BrokenLink \<Rightarrow> True
      | _ \<Rightarrow> False)"

definition path_exists :: "filesystem \<Rightarrow> path \<Rightarrow> bool" where
  "path_exists fs p =
     (case map_of fs p of
        Some (File b) \<Rightarrow> True
      | Some Dir \<Rightarrow> True
      | _ \<Rightarrow> False)"

text \<open>
  \<open>glob.glob(pattern)\<close> for a pattern with no directory part: the names of the
  current directory that match it, files, directories and links alike; names that start
  with a dot are hidden from a pattern that does not. The order is the one the operating
  system lists them in, and a directory lists each of its names once.
\<close>

definition ishidden :: "string \<Rightarrow> bool" where
  "ishidden name = (take 1 name = ''.'')"

definition listdir :: "filesystem \<Rightarrow> string list" where
  "listdir fs = remdups (filter (\<lambda>p. CHR ''/'' \<notin> set p \<and> lexists fs p) (map fst fs))"

definition glob :: "filesystem \<Rightarrow> string \<Rightarrow> path list" where
  "glob fs pattern =
     filter (fnmatch pattern)
       (filter (\<lambda>name. ishidden pattern \<or> \<not> ishidden name) (listdir fs))"

text \<open>
  \<open>os.path.dirname\<close> (\<open>posixpath.dirname\<close>):
  \<^verbatim>\<open>
  i = p.rfind(sep) + 1
  head = p[:i]
  if head and head != sep*len(head):
      head = head.rstrip(sep)
  return head
  \<close>
\<close>

definition rstrip :: "char \<Rightarrow> string \<Rightarrow> string" where
  "rstrip c s = rev (dropWhile (\<lambda>x. x = c) (rev s))"

definition dirname :: "path \<Rightarrow> path" where
  "dirname p =
     (let head = take (nat (rfind (CHR ''/'') p + 1)) p
      in if head \<noteq> [] \<and> head \<noteq> replicate (length head) (CHR ''/'')
         then rstrip (CHR ''/'') head else head)"

text \<open>
  What the operating system demands of the parent of a path that is to be created:
  the current directory always exists, any other parent must be a directory.
\<close>

definition parent_error :: "filesystem \<Rightarrow> path \<Rightarrow> error option" where
  "parent_error fs p =
     (if dirname p = [] then None
      else case map_of fs (dirname p) of
             Some (File b) \<Rightarrow> Some NotADirectoryError
           | Some Dir \<Rightarrow> None
           | _ \<Rightarrow> Some FileNotFoundError)"

text \<open>
  \<open>os.mkdir\<close>: it raises \<open>FileExistsError\<close> when anything stands at the path, a
  broken link included, the error of the parent when the parent is missing or not a
  directory, and the error of the operating system when it refuses the creation.
\<close>

definition mkdir :: "filesystem \<Rightarrow> path \<Rightarrow> error + filesystem" where
  "mkdir fs p =
     (if lexists fs p then Inl FileExistsError
      else case parent_error fs p of
             Some e \<Rightarrow> Inl e
           | None \<Rightarrow>
               (case map_of fs p of
                  Some (Refused e) \<Rightarrow> Inl e
                | _ \<Rightarrow> Inr (AList.update p Dir fs)))"

text \<open>
  \<open>os.makedirs(name)\<close> for a name with no separator, which \<open>dest_dir\<close> is: the
  head of \<open>os.path.split(name)\<close> is empty, no parent is created, and the call is
  \<open>os.mkdir(name)\<close>, whose errors it raises again (\<open>exist_ok\<close> is \<open>False\<close>).
\<close>

definition makedirs :: "filesystem \<Rightarrow> path \<Rightarrow> error + filesystem" where
  "makedirs fs name = mkdir fs name"

text \<open>Writing a file: \<open>open(p, "wb").write(data)\<close>, which truncates an existing file.\<close>

definition write_file :: "filesystem \<Rightarrow> path \<Rightarrow> bytes \<Rightarrow> error + filesystem" where
  "write_file fs p data =
     (case parent_error fs p of
        Some e \<Rightarrow> Inl e
      | None \<Rightarrow>
          (case map_of fs p of
             Some Dir \<Rightarrow> Inl IsADirectoryError
           | Some BrokenLink \<Rightarrow> Inl FileNotFoundError
           | Some (Refused e) \<Rightarrow> Inl e
           | _ \<Rightarrow> Inr (AList.update p (File data) fs)))"

subsection \<open>The image library\<close>

text \<open>
  Modelled from the spec: the library's \<open>open\<close>, \<open>convert\<close> and \<open>save\<close> are
  not part of the notebook. The spec gives the contract
  \<open>open(path) -> image\<close>, \<open>image.convert(format) -> image\<close>, \<open>image.save(path)\<close>,
  where saving writes the file at the path, "overwriting any existing file there", and
  any of the three may fail. Here \<open>open\<close> reads the file and decodes it, \<open>convert\<close>
  is the codec's conversion, and \<open>save\<close> encodes the image and writes the bytes.
\<close>

definition fabio_open :: "'img codec \<Rightarrow> filesystem \<Rightarrow> path \<Rightarrow> error + 'img" where
  "fabio_open cd fs p =
     (case map_of fs p of
        Some Dir \<Rightarrow> Inl IsADirectoryError
      | Some (File b) \<Rightarrow>
          (case decode cd b of None \<Rightarrow> Inl CodecError | Some img \<Rightarrow> Inr img)
      | _ \<Rightarrow> Inl FileNotFoundError)"

definition fabio_convert :: "'img codec \<Rightarrow> 'img \<Rightarrow> string \<Rightarrow> error + 'img" where
  "fabio_convert cd img fmt =
     (case to_format cd img fmt of None \<Rightarrow> Inl CodecError | Some img' \<Rightarrow> Inr img')"

definition fabio_save :: "'img codec \<Rightarrow> filesystem \<Rightarrow> 'img \<Rightarrow> path \<Rightarrow> error + filesystem" where
  "fabio_save cd fs img p =
     (case encode cd img of
        None \<Rightarrow> Inl CodecError
      | Some data \<Rightarrow> write_file fs p data)"

subsection \<open>The cells\<close>

text \<open>Cell 2: the two constants.\<close>

definition dest_format :: string where
  "dest_format = ''edf''"

definition dest_dir :: path where
  "dest_dir = ''edf_format''"

definition emit :: "event \<Rightarrow> state \<Rightarrow> state" where
  "emit ev st = st\<lparr>log := log st @ [ev]\<rparr>"

text \<open>Cell 1: list the files, sort the list in place, print its length.\<close>

definition cell1 :: "state \<Rightarrow> state" where
  "cell1 st =
     (let st' = st\<lparr>files := sort (glob (fsys st) ''*.cbf'')\<rparr>
      in emit (Print (''Number of files: '' @ str_nat (length (files st')))) st')"

text \<open>Cell 3: create the destination directory unless the path exists.\<close>

definition cell3 :: "state \<Rightarrow> error option \<times> state" where
  "cell3 st =
     (if \<not> path_exists (fsys st) dest_dir then
        (let st' = emit (Makedirs dest_dir) st in
         case makedirs (fsys st') dest_dir of
           Inl e \<Rightarrow> (Some e, st')
         | Inr fs' \<Rightarrow> (None, st'\<lparr>fsys := fs'\<rparr>))
      else (None, st))"

text \<open>The destination of one file, and the body of the loop of cell 4.\<close>

definition dst_name :: "path \<Rightarrow> path" where
  "dst_name onefile = join dest_dir (fst (splitext onefile) @ ''.'' @ dest_format)"

definition convert_one :: "'img codec \<Rightarrow> state \<Rightarrow> path \<Rightarrow> error option \<times> state" where
  "convert_one cd st onefile =
     (let st1 = emit (Open onefile) st in
      case fabio_open cd (fsys st1) onefile of
        Inl e \<Rightarrow> (Some e, st1)
      | Inr img \<Rightarrow>
          (let st2 = emit (Convert dest_format) st1 in
           case fabio_convert cd img dest_format of
             Inl e \<Rightarrow> (Some e, st2)
           | Inr img' \<Rightarrow>
               (let st3 = emit (Save (dst_name onefile)) st2 in
                case fabio_save cd (fsys st3) img' (dst_name onefile) of
                  Inl e \<Rightarrow> (Some e, st3)
                | Inr fs' \<Rightarrow> (None, st3\<lparr>fsys := fs'\<rparr>))))"

lemma files_emit: "files (emit ev st) = files st"
  by (simp add: emit_def)

lemma fsys_emit: "fsys (emit ev st) = fsys st"
  by (simp add: emit_def)

lemma log_emit: "log (emit ev st) = log st @ [ev]"
  by (simp add: emit_def)

lemma convert_one_files: "files (snd (convert_one cd st onefile)) = files st"
  by (simp add: convert_one_def Let_def files_emit split: sum.splits)

text \<open>
  Cell 4. A Python \<open>for\<close> over a list keeps an index into the list object and reads
  the list again at every step: the loop ends when the index reaches the length the list
  has at that moment.
\<close>

function loop_from :: "'img codec \<Rightarrow> state \<Rightarrow> nat \<Rightarrow> error option \<times> state" where
  "loop_from cd st i =
     (if i < length (files st) then
        (case convert_one cd st (files st ! i) of
           (Some e, st') \<Rightarrow> (Some e, st')
         | (None, st') \<Rightarrow> loop_from cd st' (Suc i))
      else (None, st))"
  by pat_completeness auto
termination
proof (relation "measure (\<lambda>(cd, st, i). length (files st) - i)")
  show "wf (measure (\<lambda>(cd :: 'img codec, st, i). length (files st) - i))"
    by simp
next
  fix cd :: "'img codec" and st :: state and i :: nat
    and x :: "error option" and st' :: state
  assume lt: "i < length (files st)"
    and pair: "(x, st') = convert_one cd st (files st ! i)"
  have "snd (convert_one cd st (files st ! i)) = st'"
    using pair [symmetric] by simp
  then have "files st' = files st"
    using convert_one_files [of cd st "files st ! i"] by simp
  then show "((cd, st', Suc i), (cd, st, i)) \<in> measure (\<lambda>(cd, st, i). length (files st) - i)"
    using lt by simp
qed

declare loop_from.simps [simp del]

definition cell4 :: "'img codec \<Rightarrow> state \<Rightarrow> error option \<times> state" where
  "cell4 cd st = loop_from cd st 0"

text \<open>Cell 5: the speed, from the length of the list and the literal \<open>5.64\<close>.\<close>

definition overall_speed :: "nat \<Rightarrow> rat" where
  "overall_speed n = of_nat n / (564 / 100)"

definition cell5 :: "state \<Rightarrow> state" where
  "cell5 st =
     emit (Print (''The overall speed is '' @ fmt_1f (overall_speed (length (files st)))
                  @ '' frame/second'')) st"

text \<open>The whole notebook, from a file system, with nothing bound and nothing printed yet.\<close>

definition init :: "filesystem \<Rightarrow> state" where
  "init fs = \<lparr>fsys = fs, files = [], log = []\<rparr>"

definition run :: "'img codec \<Rightarrow> filesystem \<Rightarrow> error option \<times> state" where
  "run cd fs =
     (case cell3 (cell1 (init fs)) of
        (Some e, st) \<Rightarrow> (Some e, st)
      | (None, st) \<Rightarrow>
          (case cell4 cd st of
             (Some e, st') \<Rightarrow> (Some e, st')
           | (None, st') \<Rightarrow> (None, cell5 st')))"

subsection \<open>The loop over a list value\<close>

text \<open>
  The same loop written as a recursion over the list of the files still to visit; the
  loop of cell 4 is this one, on the whole list.
\<close>

fun loop :: "'img codec \<Rightarrow> state \<Rightarrow> path list \<Rightarrow> error option \<times> state" where
  "loop cd st [] = (None, st)"
| "loop cd st (f # fs) =
     (case convert_one cd st f of
        (Some e, st') \<Rightarrow> (Some e, st')
      | (None, st') \<Rightarrow> loop cd st' fs)"

lemma loop_from_eq: "loop_from cd st i = loop cd st (drop i (files st))"
proof (induction cd st i rule: loop_from.induct)
  case (1 cd st i)
  show ?case
  proof (cases "i < length (files st)")
    case False
    then show ?thesis by (simp add: loop_from.simps [of cd st i])
  next
    case True
    obtain x st' where c: "convert_one cd st (files st ! i) = (x, st')"
      by (cases "convert_one cd st (files st ! i)")
    have fs: "files st' = files st"
      using convert_one_files [of cd st "files st ! i"] c by simp
    have d: "drop i (files st) = files st ! i # drop (Suc i) (files st)"
      using True by (simp add: Cons_nth_drop_Suc)
    show ?thesis
    proof (cases x)
      case None
      then show ?thesis
        using "1.IH" [OF True c [symmetric] None] True c d fs
        by (simp add: loop_from.simps [of cd st i])
    next
      case (Some e)
      then show ?thesis
        using True c d by (simp add: loop_from.simps [of cd st i])
    qed
  qed
qed

subsection \<open>Facts about the path functions\<close>

lemma rfind_from_absent: "c \<notin> set s \<Longrightarrow> rfind_from c s i found = found"
  by (induction s arbitrary: i found) auto

lemma rfind_from_last:
  "c \<notin> set ys \<Longrightarrow> rfind_from c (xs @ c # ys) i found = i + int (length xs)"
  by (induction xs arbitrary: i found) (auto simp: rfind_from_absent)

lemma rfind_absent: "c \<notin> set s \<Longrightarrow> rfind c s = - 1"
  by (simp add: rfind_def rfind_from_absent)

lemma rfind_last: "c \<notin> set ys \<Longrightarrow> rfind c (xs @ c # ys) = int (length xs)"
  by (simp add: rfind_def rfind_from_last)

lemma fnmatch_literal:
  "CHR ''*'' \<notin> set p \<Longrightarrow> CHR ''?'' \<notin> set p \<Longrightarrow> fnmatch p s = (s = p)"
proof (induction p arbitrary: s)
  case Nil
  then show ?case by (cases s) auto
next
  case (Cons a p)
  then show ?case by (cases s) auto
qed

lemma fnmatch_star_literal:
  assumes "CHR ''*'' \<notin> set p" and "CHR ''?'' \<notin> set p"
  shows "fnmatch (CHR ''*'' # p) s = (\<exists>stem. s = stem @ p)"
proof (induction s)
  case Nil
  show ?case using fnmatch_literal [OF assms, of "[]"] by auto
next
  case (Cons c cs)
  have "fnmatch (CHR ''*'' # p) (c # cs) = (fnmatch p (c # cs) \<or> fnmatch (CHR ''*'' # p) cs)"
    by simp
  also have "\<dots> = (c # cs = p \<or> (\<exists>stem. cs = stem @ p))"
    using Cons.IH fnmatch_literal [OF assms, of "c # cs"] by simp
  also have "\<dots> = (\<exists>stem. c # cs = stem @ p)"
    by (auto simp: Cons_eq_append_conv)
  finally show ?case .
qed

lemma fnmatch_star_cbf: "fnmatch ''*.cbf'' s = (\<exists>stem. s = stem @ ''.cbf'')"
  using fnmatch_star_literal [of "''.cbf''" s] by simp

text \<open>The names the pattern of cell 1 selects.\<close>

definition cbf_name :: "string \<Rightarrow> bool" where
  "cbf_name name =
     (CHR ''/'' \<notin> set name \<and> \<not> ishidden name \<and> fnmatch ''*.cbf'' name)"

lemma cbf_name_stem:
  assumes "cbf_name name"
  obtains stem where "name = stem @ ''.cbf''" and "stem \<noteq> []" and "hd stem \<noteq> CHR ''.''"
    and "CHR ''/'' \<notin> set stem"
proof -
  from assms obtain stem where n: "name = stem @ ''.cbf''"
    by (auto simp: cbf_name_def fnmatch_star_cbf)
  have h: "take 1 name \<noteq> ''.''" using assms by (simp add: cbf_name_def ishidden_def)
  have ne: "stem \<noteq> []" using h n by auto
  then have "hd stem \<noteq> CHR ''.''" using h n by (cases stem) auto
  moreover have "CHR ''/'' \<notin> set stem" using assms n by (simp add: cbf_name_def)
  ultimately show ?thesis using that n ne by blast
qed

lemma skip_leading_dots_first:
  "0 < d \<Longrightarrow> take 1 p \<noteq> ''.'' \<Longrightarrow> skip_leading_dots p 0 d = (take (nat d) p, drop (nat d) p)"
  by (simp add: skip_leading_dots.simps [of p 0 d])

lemma splitext_stem:
  assumes "stem \<noteq> []" and "hd stem \<noteq> CHR ''.''" and "CHR ''/'' \<notin> set stem"
    and "CHR ''.'' \<notin> set ext" and "CHR ''/'' \<notin> set ext"
  shows "splitext (stem @ CHR ''.'' # ext) = (stem, CHR ''.'' # ext)"
proof -
  let ?p = "stem @ CHR ''.'' # ext"
  have sep: "rfind (CHR ''/'') ?p = - 1" using assms by (simp add: rfind_absent)
  have dot: "rfind (CHR ''.'') ?p = int (length stem)" using assms by (simp add: rfind_last)
  have pos: "0 < int (length stem)" using assms by simp
  have nd: "take 1 ?p \<noteq> ''.''" using assms by (cases stem) auto
  show ?thesis
    using skip_leading_dots_first [OF pos nd] by (simp add: splitext_def sep dot)
qed

lemma splitext_cbf:
  assumes "stem \<noteq> []" and "hd stem \<noteq> CHR ''.''" and "CHR ''/'' \<notin> set stem"
  shows "splitext (stem @ ''.cbf'') = (stem, ''.cbf'')"
  using splitext_stem [OF assms, of "''cbf''"] by simp

lemma dst_name_cbf:
  assumes "stem \<noteq> []" and "hd stem \<noteq> CHR ''.''" and "CHR ''/'' \<notin> set stem"
  shows "dst_name (stem @ ''.cbf'') = ''edf_format/'' @ stem @ ''.edf''"
proof -
  have root: "fst (splitext (stem @ ''.cbf'')) = stem"
    using splitext_cbf [OF assms] by simp
  have "take 1 (stem @ ''.edf'') \<noteq> ''/''"
    using assms by (cases stem) auto
  then have "join ''edf_format'' (stem @ ''.edf'') = ''edf_format/'' @ stem @ ''.edf''"
    by (simp add: join_def)
  then show ?thesis
    by (simp add: dst_name_def root dest_dir_def dest_format_def)
qed

lemma dirname_in_dir:
  assumes "CHR ''/'' \<notin> set d" and "d \<noteq> []" and "CHR ''/'' \<notin> set b"
  shows "dirname (d @ CHR ''/'' # b) = d"
proof -
  have r: "rfind (CHR ''/'') (d @ CHR ''/'' # b) = int (length d)"
    using assms by (simp add: rfind_last)
  have n: "nat (int (length d) + 1) = Suc (length d)"
    by simp
  have head: "take (nat (rfind (CHR ''/'') (d @ CHR ''/'' # b) + 1)) (d @ CHR ''/'' # b) = d @ ''/''"
    unfolding r n by simp
  have "last d \<noteq> CHR ''/''"
    using assms by (metis last_in_set)
  then have dw: "dropWhile (\<lambda>x. x = CHR ''/'') (rev d) = rev d"
    using assms by (cases "rev d") auto
  have strip: "rstrip (CHR ''/'') (d @ ''/'') = d"
    by (simp add: rstrip_def dw)
  have "hd (d @ ''/'') \<noteq> CHR ''/''"
    using assms by (cases d) auto
  then have nrep: "d @ ''/'' \<noteq> replicate (length (d @ ''/'')) (CHR ''/'')"
    by (metis hd_replicate length_0_conv replicate_empty snoc_eq_iff_butlast)
  show ?thesis
    unfolding dirname_def head Let_def using nrep strip by simp
qed

lemma dirname_no_sep: "CHR ''/'' \<notin> set p \<Longrightarrow> dirname p = []"
  by (simp add: dirname_def rfind_absent)

lemma cbf_name_dst:
  assumes "cbf_name name"
  obtains stem where "name = stem @ ''.cbf''"
    and "dst_name name = ''edf_format/'' @ stem @ ''.edf''"
    and "CHR ''/'' \<notin> set stem"
  using assms by (elim cbf_name_stem) (simp add: dst_name_cbf)

lemma dst_name_inj:
  assumes "cbf_name f" and "cbf_name g" and "dst_name f = dst_name g"
  shows "f = g"
proof -
  obtain s where s: "f = s @ ''.cbf''" "dst_name f = ''edf_format/'' @ s @ ''.edf''"
    using assms(1) by (elim cbf_name_dst)
  obtain t where t: "g = t @ ''.cbf''" "dst_name g = ''edf_format/'' @ t @ ''.edf''"
    using assms(2) by (elim cbf_name_dst)
  from assms(3) s t have "s = t" by simp
  then show ?thesis using s t by simp
qed

lemma dst_name_has_sep: "cbf_name f \<Longrightarrow> CHR ''/'' \<in> set (dst_name f)"
  by (elim cbf_name_dst) simp

lemma dst_name_not_input: "cbf_name f \<Longrightarrow> cbf_name g \<Longrightarrow> dst_name f \<noteq> g"
  using dst_name_has_sep [of f] by (auto simp: cbf_name_def)

lemma dst_name_not_dest_dir: "cbf_name f \<Longrightarrow> dst_name f \<noteq> dest_dir"
  using dst_name_has_sep [of f] by (auto simp: dest_dir_def)

lemma dirname_dst_name: "cbf_name f \<Longrightarrow> dirname (dst_name f) = dest_dir"
proof (elim cbf_name_dst)
  fix stem
  assume d: "dst_name f = ''edf_format/'' @ stem @ ''.edf''" and n: "CHR ''/'' \<notin> set stem"
  have "dirname (''edf_format'' @ CHR ''/'' # (stem @ ''.edf'')) = ''edf_format''"
    by (rule dirname_in_dir) (use n in auto)
  then show ?thesis by (simp add: d dest_dir_def)
qed

lemma dirname_dest_dir: "dirname dest_dir = []"
  by (rule dirname_no_sep) (simp add: dest_dir_def)

lemma dest_dir_not_cbf: "\<not> cbf_name dest_dir"
  by (simp add: cbf_name_def dest_dir_def fnmatch_star_cbf)

subsection \<open>Facts about the directory listing\<close>

lemma glob_cbf:
  "glob fs ''*.cbf'' = remdups (filter (\<lambda>n. cbf_name n \<and> lexists fs n) (map fst fs))"
proof -
  have "\<not> ishidden ''*.cbf''" by (simp add: ishidden_def)
  then show ?thesis
    unfolding glob_def listdir_def cbf_name_def
    by (simp add: remdups_filter [symmetric] conj_commute conj_left_commute)
qed

lemma glob_cbf_names: "name \<in> set (glob fs ''*.cbf'') \<Longrightarrow> cbf_name name"
  by (simp add: glob_cbf)

lemma glob_cbf_distinct: "distinct (glob fs ''*.cbf'')"
  by (simp add: glob_cbf)

lemma lexists_update_other: "n \<noteq> p \<Longrightarrow> lexists (AList.update p v fs) n = lexists fs n"
  by (simp add: lexists_def update_conv')

lemma glob_cbf_update:
  assumes "\<not> cbf_name p"
  shows "glob (AList.update p v fs) ''*.cbf'' = glob fs ''*.cbf''"
proof -
  have "lexists (AList.update p v fs) n = lexists fs n" if "cbf_name n" for n
    using that assms lexists_update_other [of n p v fs] by auto
  then have "filter (\<lambda>n. cbf_name n \<and> lexists (AList.update p v fs) n) ks
      = filter (\<lambda>n. cbf_name n \<and> lexists fs n) ks" for ks
    by (intro filter_cong) auto
  then show ?thesis
    using assms by (simp add: glob_cbf update_keys)
qed

subsection \<open>One step of the loop\<close>

text \<open>What the library makes of the bytes of one input file, end to end.\<close>

definition transcode :: "'img codec \<Rightarrow> bytes \<Rightarrow> bytes option" where
  "transcode cd b =
     (case decode cd b of
        None \<Rightarrow> None
      | Some img \<Rightarrow>
          (case to_format cd img dest_format of
             None \<Rightarrow> None
           | Some img' \<Rightarrow> encode cd img'))"

text \<open>The calls a complete step makes, and the paths a trace opened and saved.\<close>

definition step_events :: "path \<Rightarrow> event list" where
  "step_events onefile = [Open onefile, Convert dest_format, Save (dst_name onefile)]"

fun opened :: "event list \<Rightarrow> path list" where
  "opened [] = []"
| "opened (Open p # evs) = p # opened evs"
| "opened (ev # evs) = opened evs"

fun saved :: "event list \<Rightarrow> path list" where
  "saved [] = []"
| "saved (Save p # evs) = p # saved evs"
| "saved (ev # evs) = saved evs"

fun created :: "event list \<Rightarrow> path list" where
  "created [] = []"
| "created (Makedirs p # evs) = p # created evs"
| "created (ev # evs) = created evs"

lemma opened_append: "opened (xs @ ys) = opened xs @ opened ys"
  by (induction xs rule: opened.induct) auto

lemma saved_append: "saved (xs @ ys) = saved xs @ saved ys"
  by (induction xs rule: saved.induct) auto

lemma created_append: "created (xs @ ys) = created xs @ created ys"
  by (induction xs rule: created.induct) auto

lemma opened_steps: "opened (concat (map step_events xs)) = xs"
  by (induction xs) (auto simp: step_events_def)

lemma saved_steps: "saved (concat (map step_events xs)) = map dst_name xs"
  by (induction xs) (auto simp: step_events_def)

lemma created_steps: "created (concat (map step_events xs)) = []"
  by (induction xs) (auto simp: step_events_def)

text \<open>A path at which a file can be written: nothing stands there, or a regular file.\<close>

definition writable_at :: "filesystem \<Rightarrow> path \<Rightarrow> bool" where
  "writable_at fs p = (case map_of fs p of None \<Rightarrow> True | Some (File b) \<Rightarrow> True | _ \<Rightarrow> False)"

lemma write_file_Inr:
  "write_file fs p data = Inr fs' \<longleftrightarrow>
     parent_error fs p = None \<and> writable_at fs p \<and> fs' = AList.update p (File data) fs"
  by (auto simp: write_file_def writable_at_def split: option.splits entry.splits)

lemma convert_one_None:
  "convert_one cd st f = (None, st') \<longleftrightarrow>
     (\<exists>b data. map_of (fsys st) f = Some (File b) \<and> transcode cd b = Some data
        \<and> parent_error (fsys st) (dst_name f) = None
        \<and> writable_at (fsys st) (dst_name f)
        \<and> st' = st\<lparr>fsys := AList.update (dst_name f) (File data) (fsys st),
                   log := log st @ step_events f\<rparr>)"
proof (cases "map_of (fsys st) f")
  case None
  then show ?thesis
    by (simp add: convert_one_def fabio_open_def emit_def)
next
  case (Some en)
  show ?thesis
  proof (cases en)
    case Dir
    then show ?thesis
      using Some by (simp add: convert_one_def fabio_open_def emit_def)
  next
    case BrokenLink
    then show ?thesis
      using Some by (simp add: convert_one_def fabio_open_def emit_def)
  next
    case (Refused e)
    then show ?thesis
      using Some by (simp add: convert_one_def fabio_open_def emit_def)
  next
    case (File b)
    note opn = Some [unfolded File]
    show ?thesis
    proof (cases "decode cd b")
      case None
      then show ?thesis
        using opn by (simp add: convert_one_def fabio_open_def emit_def transcode_def)
    next
      case dec: (Some img)
      show ?thesis
      proof (cases "to_format cd img dest_format")
        case None
        then show ?thesis
          using opn dec
          by (simp add: convert_one_def fabio_open_def fabio_convert_def emit_def transcode_def)
      next
        case cnv: (Some img')
        show ?thesis
        proof (cases "encode cd img'")
          case None
          then show ?thesis
            using opn dec cnv
            by (simp add: convert_one_def fabio_open_def fabio_convert_def fabio_save_def
                emit_def transcode_def)
        next
          case enc: (Some data)
          have tr: "transcode cd b = Some data"
            using dec cnv enc by (simp add: transcode_def)
          show ?thesis
          proof (cases "write_file (fsys st) (dst_name f) data")
            case (Inl e)
            then have "\<not> (parent_error (fsys st) (dst_name f) = None
                        \<and> writable_at (fsys st) (dst_name f))"
              using write_file_Inr [of "fsys st" "dst_name f" data] by auto
            then show ?thesis
              using opn dec cnv enc tr Inl
              by (auto simp add: convert_one_def fabio_open_def fabio_convert_def fabio_save_def
                  emit_def)
          next
            case (Inr fs')
            then have w: "parent_error (fsys st) (dst_name f) = None"
              "writable_at (fsys st) (dst_name f)"
              "fs' = AList.update (dst_name f) (File data) (fsys st)"
              using write_file_Inr [of "fsys st" "dst_name f" data fs'] by auto
            show ?thesis
              using opn dec cnv enc tr Inr w
              by (auto simp add: convert_one_def fabio_open_def fabio_convert_def fabio_save_def
                  emit_def step_events_def)
          qed
        qed
      qed
    qed
  qed
qed

lemma convert_one_Some:
  assumes "convert_one cd st f = (Some e, st')"
  shows "fsys st' = fsys st" and "files st' = files st"
    and "opened (log st') = opened (log st) @ [f]"
    and "created (log st') = created (log st)"
    and "log st' = log st @ take 1 (step_events f) \<or> log st' = log st @ take 2 (step_events f)
         \<or> log st' = log st @ step_events f"
  using assms
  unfolding convert_one_def fabio_open_def fabio_convert_def fabio_save_def Let_def emit_def
    step_events_def
  by (auto simp: opened_append created_append split: option.splits entry.splits sum.splits)

subsection \<open>Facts about the loop\<close>

lemma loop_append:
  "loop cd st (xs @ ys) =
     (case loop cd st xs of (Some e, s) \<Rightarrow> (Some e, s) | (None, s) \<Rightarrow> loop cd s ys)"
  by (induction xs arbitrary: st) (auto split: prod.splits option.splits)

lemma loop_failure_split:
  assumes "loop cd st xs = (Some e, st')"
  shows "\<exists>pre f post st1. xs = pre @ f # post \<and> loop cd st pre = (None, st1)
           \<and> convert_one cd st1 f = (Some e, st')"
  using assms
proof (induction xs arbitrary: st)
  case Nil
  then show ?case by simp
next
  case (Cons x xs)
  obtain r s where c: "convert_one cd st x = (r, s)"
    by (cases "convert_one cd st x")
  show ?case
  proof (cases r)
    case None
    then have "loop cd s xs = (Some e, st')"
      using Cons.prems c by simp
    then obtain pre f post st1 where
      "xs = pre @ f # post" "loop cd s pre = (None, st1)" "convert_one cd st1 f = (Some e, st')"
      using Cons.IH by blast
    then have "x # xs = (x # pre) @ f # post \<and> loop cd st (x # pre) = (None, st1)
        \<and> convert_one cd st1 f = (Some e, st')"
      using c None by simp
    then show ?thesis by blast
  next
    case (Some e')
    then have "convert_one cd st x = (Some e, st')"
      using Cons.prems c by simp
    then have "x # xs = [] @ x # xs \<and> loop cd st [] = (None, st)
        \<and> convert_one cd st x = (Some e, st')"
      by simp
    then show ?thesis by blast
  qed
qed

lemma loop_files: "files (snd (loop cd st xs)) = files st"
proof (induction xs arbitrary: st)
  case Nil
  then show ?case by simp
next
  case (Cons x xs)
  obtain r s where c: "convert_one cd st x = (r, s)"
    by (cases "convert_one cd st x")
  then have "files s = files st"
    using convert_one_files [of cd st x] by simp
  then show ?case
    using Cons.IH [of s] c by (cases r) auto
qed

lemma loop_success_log:
  "loop cd st xs = (None, st') \<Longrightarrow> log st' = log st @ concat (map step_events xs)"
proof (induction xs arbitrary: st)
  case Nil
  then show ?case by simp
next
  case (Cons x xs)
  obtain r s where c: "convert_one cd st x = (r, s)"
    by (cases "convert_one cd st x")
  with Cons.prems have r: "r = None" and l: "loop cd s xs = (None, st')"
    by (cases r; simp)+
  have "log s = log st @ step_events x"
    using c r by (auto simp: convert_one_None)
  then show ?case
    using Cons.IH [OF l] by simp
qed

lemma loop_success_frame:
  "loop cd st xs = (None, st') \<Longrightarrow> p \<notin> dst_name ` set xs
     \<Longrightarrow> map_of (fsys st') p = map_of (fsys st) p"
proof (induction xs arbitrary: st)
  case Nil
  then show ?case by simp
next
  case (Cons x xs)
  obtain r s where c: "convert_one cd st x = (r, s)"
    by (cases "convert_one cd st x")
  with Cons.prems have r: "r = None" and l: "loop cd s xs = (None, st')"
    by (cases r; simp)+
  have "map_of (fsys s) p = map_of (fsys st) p"
    using c r Cons.prems(2) by (auto simp: convert_one_None update_conv')
  then show ?case
    using Cons.IH [OF l] Cons.prems(2) by simp
qed

lemma loop_success_glob:
  "loop cd st xs = (None, st') \<Longrightarrow> \<forall>x\<in>set xs. cbf_name x
     \<Longrightarrow> glob (fsys st') ''*.cbf'' = glob (fsys st) ''*.cbf''"
proof (induction xs arbitrary: st)
  case Nil
  then show ?case by simp
next
  case (Cons x xs)
  obtain r s where c: "convert_one cd st x = (r, s)"
    by (cases "convert_one cd st x")
  with Cons.prems have r: "r = None" and l: "loop cd s xs = (None, st')"
    by (cases r; simp)+
  have "\<not> cbf_name (dst_name x)"
    using Cons.prems(2) dst_name_has_sep [of x] by (auto simp: cbf_name_def)
  then have "glob (fsys s) ''*.cbf'' = glob (fsys st) ''*.cbf''"
    using c r by (auto simp: convert_one_None glob_cbf_update)
  then show ?case
    using Cons.IH [OF l] Cons.prems(2) by simp
qed

lemma loop_success_dest_dir:
  assumes "loop cd st xs = (None, st')" and "xs \<noteq> []" and "\<forall>x\<in>set xs. cbf_name x"
  shows "map_of (fsys st) dest_dir = Some Dir"
proof -
  obtain x ys where xs: "xs = x # ys" using assms(2) by (cases xs) auto
  obtain r s where c: "convert_one cd st x = (r, s)"
    by (cases "convert_one cd st x")
  with assms(1) xs have r: "r = None" by (cases r; simp)
  have "parent_error (fsys st) (dst_name x) = None"
    using c r by (auto simp: convert_one_None)
  moreover have "dirname (dst_name x) = dest_dir"
    using assms(3) xs by (simp add: dirname_dst_name)
  ultimately show ?thesis
    by (auto simp: parent_error_def dest_dir_def split: if_splits option.splits entry.splits)
qed

lemma loop_success_outputs:
  assumes "loop cd st xs = (None, st')" and "distinct xs" and "\<forall>x\<in>set xs. cbf_name x"
    and "f \<in> set xs"
  shows "\<exists>b data. map_of (fsys st) f = Some (File b) \<and> transcode cd b = Some data
           \<and> map_of (fsys st') (dst_name f) = Some (File data)"
  using assms
proof (induction xs arbitrary: st)
  case Nil
  then show ?case by simp
next
  case (Cons x xs)
  obtain r s where c: "convert_one cd st x = (r, s)"
    by (cases "convert_one cd st x")
  with Cons.prems have r: "r = None" and l: "loop cd s xs = (None, st')"
    by (cases r; simp)+
  from c r obtain b data where
    b: "map_of (fsys st) x = Some (File b)" and t: "transcode cd b = Some data"
    and s: "fsys s = AList.update (dst_name x) (File data) (fsys st)"
    by (auto simp: convert_one_None)
  show ?case
  proof (cases "f = x")
    case True
    have "dst_name x \<notin> dst_name ` set xs"
      using Cons.prems(2,3) dst_name_inj [of x] by auto
    then have "map_of (fsys st') (dst_name x) = map_of (fsys s) (dst_name x)"
      using loop_success_frame [OF l] by simp
    then show ?thesis
      using True b t s by (simp add: update_conv')
  next
    case False
    then have fin: "f \<in> set xs" using Cons.prems(4) by simp
    have "dst_name x \<noteq> f"
      using Cons.prems(3) fin dst_name_not_input [of x f] by simp
    then have "map_of (fsys s) f = map_of (fsys st) f"
      using s by (simp add: update_conv')
    then show ?thesis
      using Cons.IH [OF l _ _ fin] Cons.prems(2,3) by simp
  qed
qed

subsection \<open>Facts about the cells and the whole run\<close>

lemma update_absent: "map_of al k = None \<Longrightarrow> AList.update k v al = al @ [(k, v)]"
  by (induction al) (auto split: if_splits)

lemma update_present: "map_of al k = Some v \<Longrightarrow> AList.update k v al = al"
  by (induction al) (auto split: if_splits)

lemma cell1_init:
  "cell1 (init fs) =
     \<lparr>fsys = fs, files = sort (glob fs ''*.cbf''),
      log = [Print (''Number of files: '' @ str_nat (length (glob fs ''*.cbf'')))]\<rparr>"
  by (simp add: cell1_def init_def emit_def Let_def)

lemma cell3_exists: "path_exists (fsys st) dest_dir \<Longrightarrow> cell3 st = (None, st)"
  by (simp add: cell3_def)

lemma cell3_absent:
  assumes "map_of (fsys st) dest_dir = None"
  shows "cell3 st =
     (None, st\<lparr>fsys := fsys st @ [(dest_dir, Dir)], log := log st @ [Makedirs dest_dir]\<rparr>)"
proof -
  have "mkdir (fsys st) dest_dir = Inr (fsys st @ [(dest_dir, Dir)])"
    using assms
    by (simp add: mkdir_def lexists_def parent_error_def dirname_dest_dir update_absent [OF assms])
  then show ?thesis
    using assms by (simp add: cell3_def path_exists_def makedirs_def emit_def Let_def)
qed

lemma cell3_broken_link:
  assumes "map_of (fsys st) dest_dir = Some BrokenLink"
  shows "cell3 st = (Some FileExistsError, emit (Makedirs dest_dir) st)"
  using assms
  by (simp add: cell3_def path_exists_def makedirs_def mkdir_def lexists_def emit_def Let_def)

lemma cell3_refused:
  assumes "map_of (fsys st) dest_dir = Some (Refused e)"
  shows "cell3 st = (Some e, emit (Makedirs dest_dir) st)"
  using assms
  by (simp add: cell3_def path_exists_def makedirs_def mkdir_def lexists_def parent_error_def
      dirname_dest_dir emit_def Let_def)

lemma cell3_files: "files (snd (cell3 st)) = files st"
  by (simp add: cell3_def Let_def emit_def split: sum.splits)

text \<open>
  The state in which cell 3 leaves the run, which is the state in which the loop starts
  when cell 3 raises nothing; and the error cell 3 raises, read off the file system.
\<close>

definition before_loop :: "filesystem \<Rightarrow> state" where
  "before_loop fs = snd (cell3 (cell1 (init fs)))"

definition cell3_raises :: "filesystem \<Rightarrow> error option" where
  "cell3_raises fs =
     (case map_of fs dest_dir of
        Some BrokenLink \<Rightarrow> Some FileExistsError
      | Some (Refused e) \<Rightarrow> Some e
      | _ \<Rightarrow> None)"

lemma cell3_init: "cell3 (cell1 (init fs)) = (cell3_raises fs, before_loop fs)"
proof -
  have "fst (cell3 (cell1 (init fs))) = cell3_raises fs"
  proof (cases "map_of fs dest_dir")
    case None
    then show ?thesis
      using cell3_absent [of "cell1 (init fs)"] by (simp add: cell1_init cell3_raises_def)
  next
    case (Some en)
    then show ?thesis
      using cell3_exists [of "cell1 (init fs)"] cell3_broken_link [of "cell1 (init fs)"]
        cell3_refused [of "cell1 (init fs)"]
      by (cases en) (simp_all add: cell1_init cell3_raises_def path_exists_def)
  qed
  then show ?thesis
    by (simp add: before_loop_def prod_eq_iff)
qed

lemma before_loop_eq:
  "before_loop fs =
     \<lparr>fsys = (if map_of fs dest_dir = None then fs @ [(dest_dir, Dir)] else fs),
      files = sort (glob fs ''*.cbf''),
      log = Print (''Number of files: '' @ str_nat (length (glob fs ''*.cbf'')))
            # (if path_exists fs dest_dir then [] else [Makedirs dest_dir])\<rparr>"
proof (cases "map_of fs dest_dir")
  case None
  then show ?thesis
    using cell3_absent [of "cell1 (init fs)"]
    by (simp add: before_loop_def cell1_init path_exists_def)
next
  case (Some en)
  then show ?thesis
    using cell3_exists [of "cell1 (init fs)"] cell3_broken_link [of "cell1 (init fs)"]
      cell3_refused [of "cell1 (init fs)"]
    by (cases en) (simp_all add: before_loop_def cell1_init path_exists_def emit_def)
qed

lemma cell3_ok_iff:
  "cell3_raises fs = None \<longleftrightarrow> path_exists fs dest_dir \<or> map_of fs dest_dir = None"
  by (simp add: cell3_raises_def path_exists_def split: option.splits entry.splits)

lemma cell3_ok_absent:
  "cell3_raises fs = None \<Longrightarrow> (map_of fs dest_dir = None) = (\<not> path_exists fs dest_dir)"
  by (auto simp: cell3_raises_def path_exists_def split: option.splits entry.splits)

lemma cell3_ok_exists: "cell3_raises fs = None \<Longrightarrow> path_exists (fsys (before_loop fs)) dest_dir"
  by (auto simp: before_loop_eq cell3_raises_def path_exists_def map_add_def
      split: option.splits entry.splits)

lemma cell4_loop: "cell4 cd st = loop cd st (files st)"
  by (simp add: cell4_def loop_from_eq)

lemma run_loop:
  "run cd fs =
     (case cell3_raises fs of
        Some e \<Rightarrow> (Some e, before_loop fs)
      | None \<Rightarrow>
          (case loop cd (before_loop fs) (sort (glob fs ''*.cbf'')) of
             (Some e, st) \<Rightarrow> (Some e, st)
           | (None, st) \<Rightarrow> (None, cell5 st)))"
proof -
  have "files (before_loop fs) = sort (glob fs ''*.cbf'')"
    by (simp add: before_loop_eq)
  then show ?thesis
    by (simp add: run_def cell3_init cell4_loop split: option.splits)
qed

lemma run_None:
  "run cd fs = (None, st) \<longleftrightarrow>
     cell3_raises fs = None
     \<and> (\<exists>s. loop cd (before_loop fs) (sort (glob fs ''*.cbf'')) = (None, s) \<and> st = cell5 s)"
  by (auto simp: run_loop split: prod.splits option.splits)

lemma run_Some:
  "run cd fs = (Some e, st) \<longleftrightarrow>
     (cell3_raises fs = Some e \<and> st = before_loop fs)
     \<or> (cell3_raises fs = None
        \<and> loop cd (before_loop fs) (sort (glob fs ''*.cbf'')) = (Some e, st))"
  by (auto simp: run_loop split: prod.splits option.splits)

lemma files_cell5: "files (cell5 st) = files st"
  by (simp add: cell5_def files_emit)

lemma fsys_cell5: "fsys (cell5 st) = fsys st"
  by (simp add: cell5_def fsys_emit)

definition count_line :: "nat \<Rightarrow> event" where
  "count_line n = Print (''Number of files: '' @ str_nat n)"

definition speed_line :: "nat \<Rightarrow> event" where
  "speed_line n = Print (''The overall speed is '' @ fmt_1f (overall_speed n) @ '' frame/second'')"

lemma run_files: "files (snd (run cd fs)) = sort (glob fs ''*.cbf'')"
proof -
  have b: "files (before_loop fs) = sort (glob fs ''*.cbf'')"
    by (simp add: before_loop_eq)
  then have "files (snd (loop cd (before_loop fs) (sort (glob fs ''*.cbf''))))
      = sort (glob fs ''*.cbf'')"
    by (simp add: loop_files)
  then show ?thesis
    using b by (auto simp: run_loop files_cell5 split: prod.splits option.splits)
qed

lemma run_cell3_failure:
  assumes "run cd fs = (Some e, st)" and "cell3_raises fs \<noteq> None"
  shows "st = before_loop fs" and "cell3_raises fs = Some e"
    and "log st = [count_line (length (files st)), Makedirs dest_dir]"
    and "fsys st = fs"
proof -
  show st: "st = before_loop fs" and "cell3_raises fs = Some e"
    using assms by (auto simp: run_Some)
  have "\<not> path_exists fs dest_dir" and "map_of fs dest_dir \<noteq> None"
    using assms(2) by (auto simp: cell3_raises_def path_exists_def split: option.splits entry.splits)
  then show "log st = [count_line (length (files st)), Makedirs dest_dir]" and "fsys st = fs"
    by (simp_all add: st before_loop_eq count_line_def)
qed

lemma sorted_files_cbf: "x \<in> set (sort (glob fs ''*.cbf'')) \<Longrightarrow> cbf_name x"
  by (simp add: glob_cbf_names)

lemma sorted_files_distinct: "distinct (sort (glob fs ''*.cbf''))"
  by (simp add: glob_cbf_distinct)

lemma run_success_log:
  assumes "run cd fs = (None, st)"
  shows "log st = count_line (length (files st))
           # (if path_exists fs dest_dir then [] else [Makedirs dest_dir])
           @ concat (map step_events (files st))
           @ [speed_line (length (files st))]"
proof -
  let ?xs = "sort (glob fs ''*.cbf'')"
  from assms obtain s where l: "loop cd (before_loop fs) ?xs = (None, s)" and st: "st = cell5 s"
    by (auto simp: run_None)
  have f: "files s = ?xs"
    using loop_files [of cd "before_loop fs" ?xs] l by (simp add: before_loop_eq)
  have "log s = log (before_loop fs) @ concat (map step_events ?xs)"
    by (rule loop_success_log [OF l])
  then show ?thesis
    using assms cell3_ok_absent [of fs]
    by (simp add: st cell5_def emit_def f before_loop_eq count_line_def speed_line_def run_None)
qed

lemma run_failure_log:
  assumes "run cd fs = (Some e, st)" and "cell3_raises fs = None"
  shows "\<exists>pre f post evs. files st = pre @ f # post
           \<and> log st = count_line (length (files st))
               # (if path_exists fs dest_dir then [] else [Makedirs dest_dir])
               @ concat (map step_events pre) @ evs
           \<and> evs \<in> {take 1 (step_events f), take 2 (step_events f), step_events f}"
proof -
  let ?xs = "sort (glob fs ''*.cbf'')"
  from assms have l: "loop cd (before_loop fs) ?xs = (Some e, st)"
    by (simp add: run_Some)
  then obtain pre f post st1 where xs: "?xs = pre @ f # post"
    and p: "loop cd (before_loop fs) pre = (None, st1)"
    and c: "convert_one cd st1 f = (Some e, st)"
    using loop_failure_split by blast
  have f: "files st = ?xs"
    using run_files [of cd fs] assms(1) by simp
  have l1: "log st1 = log (before_loop fs) @ concat (map step_events pre)"
    by (rule loop_success_log [OF p])
  obtain evs where "log st = log st1 @ evs"
    and "evs \<in> {take 1 (step_events f), take 2 (step_events f), step_events f}"
    using convert_one_Some(5) [OF c] by blast
  moreover have "length (files st) = length (glob fs ''*.cbf'')"
    by (simp add: f)
  ultimately have "files st = pre @ f # post
           \<and> log st = count_line (length (files st))
               # (if path_exists fs dest_dir then [] else [Makedirs dest_dir])
               @ concat (map step_events pre) @ evs
           \<and> evs \<in> {take 1 (step_events f), take 2 (step_events f), step_events f}"
    using l1 f [unfolded xs] by (simp add: before_loop_eq count_line_def)
  then show ?thesis by blast
qed

subsection \<open>Scenarios\<close>

text \<open>
  A codec for the concrete scenarios: an image is its bytes, the bytes \<open>corrupt\<close> do
  not decode, a conversion tags the image with the name of the format.
\<close>

definition toy_codec :: "string codec" where
  "toy_codec =
     \<lparr>decode = (\<lambda>b. if b = ''corrupt'' then None else Some b),
      to_format = (\<lambda>img fmt. Some (fmt @ '':'' @ img)),
      encode = Some\<rparr>"

text \<open>The calls of the loop in a trace.\<close>

fun calls :: "event list \<Rightarrow> event list" where
  "calls [] = []"
| "calls (Print s # evs) = calls evs"
| "calls (Makedirs p # evs) = calls evs"
| "calls (ev # evs) = ev # calls evs"

lemma calls_append: "calls (xs @ ys) = calls xs @ calls ys"
  by (induction xs rule: calls.induct) auto

lemma calls_step_events: "calls (step_events f) = step_events f"
  by (simp add: step_events_def)

lemma calls_steps: "calls (concat (map step_events xs)) = concat (map step_events xs)"
  by (induction xs) (auto simp: calls_append calls_step_events)

lemma calls_take_step: "calls (take k (step_events f)) = take k (step_events f)"
proof -
  have "k = 0 \<or> k = 1 \<or> k = 2 \<or> 3 \<le> k" by arith
  then show ?thesis by (auto simp: step_events_def)
qed

lemma calls_marks:
  "calls (count_line n # (if c then [] else [Makedirs d]) @ xs) = calls xs"
  by (simp add: count_line_def)



lemma opened_before_loop: "opened (log (before_loop fs)) = []"
  by (simp add: before_loop_eq)

lemma saved_before_loop: "saved (log (before_loop fs)) = []"
  by (simp add: before_loop_eq)

lemma map_of_before_loop: "p \<noteq> dest_dir \<Longrightarrow> map_of (fsys (before_loop fs)) p = map_of fs p"
  by (simp add: before_loop_eq map_add_def split: option.splits)

lemma run_opened:
  assumes "run cd fs = (err, st)"
  shows "prefix (opened (log st)) (files st) \<and> (err = None \<longrightarrow> opened (log st) = files st)"
proof (cases err)
  case None
  then have "opened (log st) = files st"
    using run_success_log [of cd fs st] assms
    by (simp add: opened_append opened_steps count_line_def speed_line_def)
  then show ?thesis by simp
next
  case (Some e)
  show ?thesis
  proof (cases "cell3_raises fs")
    case None
    then obtain pre g post evs where p: "files st = pre @ g # post"
      and l: "log st = count_line (length (files st))
               # (if path_exists fs dest_dir then [] else [Makedirs dest_dir])
               @ concat (map step_events pre) @ evs"
      and e: "evs \<in> {take 1 (step_events g), take 2 (step_events g), step_events g}"
      using run_failure_log [of cd fs e st] assms Some by blast
    have "opened evs = [g]"
      using e by (auto simp: step_events_def)
    then have "opened (log st) = pre @ [g]"
      unfolding l by (simp add: opened_append opened_steps count_line_def)
    then show ?thesis
      using Some p by simp
  next
    case c3: (Some e')
    then have "log st = [count_line (length (files st)), Makedirs dest_dir]"
      using run_cell3_failure(3) [of cd fs e st] assms Some by simp
    then show ?thesis
      using Some by (simp add: count_line_def)
  qed
qed

lemma loop_frame:
  assumes "loop cd st xs = (r, st')" and "p \<notin> dst_name ` set xs"
  shows "map_of (fsys st') p = map_of (fsys st) p"
proof (cases r)
  case None
  then show ?thesis
    using loop_success_frame [of cd st xs st' p] assms by simp
next
  case (Some e)
  then obtain pre f post st1 where xs: "xs = pre @ f # post"
    and p: "loop cd st pre = (None, st1)" and c: "convert_one cd st1 f = (Some e, st')"
    using loop_failure_split [of cd st xs e st'] assms(1) by blast
  have "p \<notin> dst_name ` set pre"
    using assms(2) xs by auto
  then have "map_of (fsys st1) p = map_of (fsys st) p"
    by (rule loop_success_frame [OF p])
  then show ?thesis
    using convert_one_Some(1) [OF c] by simp
qed

lemma loop_created: "created (log (snd (loop cd st xs))) = created (log st)"
proof (induction xs arbitrary: st)
  case Nil
  then show ?case by simp
next
  case (Cons x xs)
  obtain r s where c: "convert_one cd st x = (r, s)"
    by (cases "convert_one cd st x")
  show ?case
  proof (cases r)
    case None
    then have "log s = log st @ step_events x"
      using c by (auto simp: convert_one_None)
    then have "created (log s) = created (log st)"
      by (simp add: created_append step_events_def)
    then show ?thesis
      using Cons.IH [of s] c None by simp
  next
    case (Some e)
    then show ?thesis
      using c convert_one_Some(4) [of cd st x e s] by simp
  qed
qed

lemma run_created:
  "created (log (snd (run cd fs))) = (if path_exists fs dest_dir then [] else [dest_dir])"
proof -
  let ?r = "loop cd (before_loop fs) (sort (glob fs ''*.cbf''))"
  have b: "created (log (before_loop fs)) = (if path_exists fs dest_dir then [] else [dest_dir])"
    by (simp add: before_loop_eq)
  have "created (log (snd ?r)) = created (log (before_loop fs))"
    by (rule loop_created)
  then have c: "created (log (snd ?r)) = (if path_exists fs dest_dir then [] else [dest_dir])"
    using b by simp
  have "created (log (cell5 s)) = created (log s)" for s
    by (simp add: cell5_def emit_def created_append)
  then show ?thesis
    using b c by (cases ?r) (auto simp: run_loop split: option.splits)
qed

lemma run_dest_dir:
  "map_of (fsys (snd (run cd fs))) dest_dir = map_of (fsys (before_loop fs)) dest_dir"
proof -
  let ?xs = "sort (glob fs ''*.cbf'')"
  obtain r s where l: "loop cd (before_loop fs) ?xs = (r, s)"
    by (cases "loop cd (before_loop fs) ?xs")
  have "dest_dir \<notin> dst_name ` set ?xs"
    using dst_name_not_dest_dir glob_cbf_names by force
  then have "map_of (fsys s) dest_dir = map_of (fsys (before_loop fs)) dest_dir"
    by (rule loop_frame [OF l])
  then show ?thesis
    using l by (cases r; cases "cell3_raises fs") (simp_all add: run_loop fsys_cell5)
qed

lemma str_nat_0: "str_nat 0 = ''0''"
  by (simp add: str_nat.simps [of 0])

lemma fmt_1f_0: "fmt_1f 0 = ''0.0''"
  by (simp add: fmt_1f_def round_half_even_def str_nat_0)

lemma glob_before_loop: "glob (fsys (before_loop fs)) ''*.cbf'' = glob fs ''*.cbf''"
proof (cases "map_of fs dest_dir")
  case None
  have "glob (AList.update dest_dir Dir fs) ''*.cbf'' = glob fs ''*.cbf''"
    by (rule glob_cbf_update [OF dest_dir_not_cbf])
  then show ?thesis
    using None by (simp add: before_loop_eq update_absent)
next
  case (Some en)
  then show ?thesis
    by (simp add: before_loop_eq)
qed

lemma loop_append_None:
  assumes "loop cd st (xs @ ys) = (None, st')"
  shows "\<exists>s. loop cd st xs = (None, s) \<and> loop cd s ys = (None, st')"
  using assms by (auto simp: loop_append split: prod.splits option.splits)

lemma loop_prefix_state:
  assumes "loop cd (before_loop fs) xs = (None, s)"
    and "distinct (xs @ ys)" and "\<forall>x\<in>set (xs @ ys). cbf_name x"
  shows "(\<forall>f\<in>set xs. \<exists>b data. map_of fs f = Some (File b) \<and> transcode cd b = Some data
            \<and> map_of (fsys s) (dst_name f) = Some (File data))
       \<and> (\<forall>f\<in>set ys. map_of (fsys s) (dst_name f) = map_of fs (dst_name f))"
proof -
  have dis: "distinct xs" and cbf: "\<forall>x\<in>set xs. cbf_name x"
    using assms(2,3) by auto
  have 1: "\<exists>b data. map_of fs f = Some (File b) \<and> transcode cd b = Some data
            \<and> map_of (fsys s) (dst_name f) = Some (File data)" if f: "f \<in> set xs" for f
  proof -
    have "f \<noteq> dest_dir" using cbf f dest_dir_not_cbf by auto
    then show ?thesis
      using loop_success_outputs [OF assms(1) dis cbf f] by (simp add: map_of_before_loop)
  qed
  have 2: "map_of (fsys s) (dst_name f) = map_of fs (dst_name f)" if f: "f \<in> set ys" for f
  proof -
    have cf: "cbf_name f" using assms(3) f by auto
    have "f \<notin> set xs" using assms(2) f by auto
    then have "dst_name f \<notin> dst_name ` set xs"
      using dst_name_inj [OF cf] cbf by auto
    then have "map_of (fsys s) (dst_name f) = map_of (fsys (before_loop fs)) (dst_name f)"
      by (rule loop_success_frame [OF assms(1)])
    then show ?thesis
      using dst_name_not_dest_dir [OF cf] by (simp add: map_of_before_loop)
  qed
  show ?thesis using 1 2 by blast
qed

lemma loop_rerun:
  assumes "\<forall>f\<in>set xs. \<exists>b data. map_of (fsys st) f = Some (File b) \<and> transcode cd b = Some data
             \<and> map_of (fsys st) (dst_name f) = Some (File data)
             \<and> parent_error (fsys st) (dst_name f) = None"
  shows "loop cd st xs = (None, st\<lparr>log := log st @ concat (map step_events xs)\<rparr>)"
  using assms
proof (induction xs arbitrary: st)
  case Nil
  then show ?case by simp
next
  case (Cons x xs)
  from Cons.prems obtain b data where x: "map_of (fsys st) x = Some (File b)"
    "transcode cd b = Some data" "map_of (fsys st) (dst_name x) = Some (File data)"
    "parent_error (fsys st) (dst_name x) = None"
    by auto
  let ?s = "st\<lparr>log := log st @ step_events x\<rparr>"
  have "AList.update (dst_name x) (File data) (fsys st) = fsys st"
    by (rule update_present [OF x(3)])
  then have c: "convert_one cd st x = (None, ?s)"
    using x by (simp add: convert_one_None writable_at_def)
  have "loop cd ?s xs = (None, ?s\<lparr>log := log ?s @ concat (map step_events xs)\<rparr>)"
    by (rule Cons.IH) (use Cons.prems in simp)
  then show ?case
    using c by simp
qed

section \<open>The claims\<close>

text \<open>
  C2. Input files are processed strictly in lexicographically sorted order of their
  names, each file fully opened, converted and saved before the next begins. The list
  the loop runs over is the sorted listing. The calls the loop makes are open, convert,
  save of the first file, then of the second, and so on, up to the point where the run
  ends; all of them when the run ends without error. The outputs on disk at the end are
  those of an initial segment of the sorted list, each holding the conversion of its
  input, and no destination of a later file has been written; the segment is the whole
  list when the run ends without error. In a run without error, for every \<open>k\<close>, when
  the first \<open>k\<close> files have been processed their \<open>k\<close> outputs are on disk and no
  destination of a later file has been written yet: the outputs are created in the order
  of the list.
\<close>

theorem files_processed_in_sorted_order:
  assumes "run cd fs = (err, st)"
  shows "files st = sort (glob fs ''*.cbf'') \<and> sorted (files st) \<and> distinct (files st)
       \<and> prefix (calls (log st)) (concat (map step_events (files st)))
       \<and> (err = None \<longrightarrow> calls (log st) = concat (map step_events (files st)))
       \<and> (\<exists>done. prefix done (files st) \<and> (err = None \<longrightarrow> done = files st)
            \<and> prefix (concat (map step_events done)) (calls (log st))
            \<and> (\<forall>f\<in>set done. \<exists>b data. map_of fs f = Some (File b)
                  \<and> transcode cd b = Some data
                  \<and> map_of (fsys st) (dst_name f) = Some (File data))
            \<and> (\<forall>f\<in>set (files st). f \<notin> set done
                  \<longrightarrow> map_of (fsys st) (dst_name f) = map_of fs (dst_name f)))
       \<and> (err = None \<longrightarrow> (\<forall>k\<le>length (files st). \<exists>s.
              loop cd (before_loop fs) (take k (files st)) = (None, s)
              \<and> calls (log s) = concat (map step_events (take k (files st)))
              \<and> (\<forall>f\<in>set (take k (files st)). \<exists>b data. map_of fs f = Some (File b)
                    \<and> transcode cd b = Some data
                    \<and> map_of (fsys s) (dst_name f) = Some (File data))
              \<and> (\<forall>f\<in>set (drop k (files st)).
                    map_of (fsys s) (dst_name f) = map_of fs (dst_name f))))"
proof -
  let ?xs = "sort (glob fs ''*.cbf'')"
  let ?on_disk = "\<lambda>s f. \<exists>b data. map_of fs f = Some (File b) \<and> transcode cd b = Some data
                    \<and> map_of (fsys s) (dst_name f) = Some (File data)"
  have f: "files st = ?xs"
    using run_files [of cd fs] assms by simp
  have sd: "sorted (files st) \<and> distinct (files st)"
    by (simp add: f glob_cbf_distinct)
  have cbf: "\<forall>x\<in>set ?xs. cbf_name x"
    by (simp add: glob_cbf_names)
  have dis: "distinct ?xs"
    by (simp add: glob_cbf_distinct)
  have cb: "calls (log (before_loop fs)) = []"
    by (simp add: before_loop_eq)
  have main: "(\<exists>done. prefix done ?xs \<and> (err = None \<longrightarrow> done = ?xs)
            \<and> prefix (concat (map step_events done)) (calls (log st))
            \<and> prefix (calls (log st)) (concat (map step_events ?xs))
            \<and> (err = None \<longrightarrow> calls (log st) = concat (map step_events ?xs))
            \<and> (\<forall>f\<in>set done. ?on_disk st f)
            \<and> (\<forall>f\<in>set ?xs. f \<notin> set done
                  \<longrightarrow> map_of (fsys st) (dst_name f) = map_of fs (dst_name f)))"
  proof (cases err)
    case None
    then obtain s where l: "loop cd (before_loop fs) ?xs = (None, s)" and st: "st = cell5 s"
      using assms by (auto simp: run_None)
    have c: "calls (log st) = concat (map step_events ?xs)"
      using run_success_log [of cd fs st] assms None
      by (simp add: f calls_marks calls_append calls_steps speed_line_def)
    have "\<forall>f\<in>set ?xs. ?on_disk st f"
      using loop_prefix_state [of cd fs ?xs s "[]"] l dis cbf by (simp add: st fsys_cell5)
    then have "prefix ?xs ?xs \<and> (err = None \<longrightarrow> ?xs = ?xs)
            \<and> prefix (concat (map step_events ?xs)) (calls (log st))
            \<and> prefix (calls (log st)) (concat (map step_events ?xs))
            \<and> (err = None \<longrightarrow> calls (log st) = concat (map step_events ?xs))
            \<and> (\<forall>f\<in>set ?xs. ?on_disk st f)
            \<and> (\<forall>f\<in>set ?xs. f \<notin> set ?xs
                  \<longrightarrow> map_of (fsys st) (dst_name f) = map_of fs (dst_name f))"
      using c by simp
    then show ?thesis by blast
  next
    case (Some e)
    show ?thesis
    proof (cases "cell3_raises fs")
      case c3: None
      then have "loop cd (before_loop fs) ?xs = (Some e, st)"
        using assms Some by (simp add: run_Some)
      then obtain pre g post st1 where xs: "?xs = pre @ g # post"
        and p: "loop cd (before_loop fs) pre = (None, st1)"
        and c: "convert_one cd st1 g = (Some e, st)"
        using loop_failure_split by blast
      have l1: "log st1 = log (before_loop fs) @ concat (map step_events pre)"
        by (rule loop_success_log [OF p])
      have "take 3 (step_events g) = step_events g"
        by (simp add: step_events_def)
      then obtain k where k: "log st = log st1 @ take k (step_events g)"
        using convert_one_Some(5) [OF c] by metis
      have cl: "calls (log st) = concat (map step_events pre) @ take k (step_events g)"
        by (simp add: k l1 calls_append calls_steps calls_take_step cb)
      have "prefix (take k (step_events g)) (step_events g @ concat (map step_events post))"
        by (metis prefix_append prefix_order.order_refl take_is_prefix prefix_order.trans prefixI)
      then have pc: "prefix (calls (log st)) (concat (map step_events ?xs))"
        unfolding xs cl by simp
      have ps: "(\<forall>f\<in>set pre. ?on_disk st1 f)
         \<and> (\<forall>f\<in>set (g # post). map_of (fsys st1) (dst_name f) = map_of fs (dst_name f))"
        using loop_prefix_state [of cd fs pre st1 "g # post"] p dis cbf unfolding xs by simp
      have fsy: "fsys st = fsys st1"
        by (rule convert_one_Some(1) [OF c])
      have "prefix pre ?xs \<and> (err = None \<longrightarrow> pre = ?xs)
            \<and> prefix (concat (map step_events pre)) (calls (log st))
            \<and> prefix (calls (log st)) (concat (map step_events ?xs))
            \<and> (err = None \<longrightarrow> calls (log st) = concat (map step_events ?xs))
            \<and> (\<forall>f\<in>set pre. ?on_disk st f)
            \<and> (\<forall>f\<in>set ?xs. f \<notin> set pre
                  \<longrightarrow> map_of (fsys st) (dst_name f) = map_of fs (dst_name f))"
        using Some pc ps by (auto simp: xs cl fsy)
      then show ?thesis by blast
    next
      case c3: (Some e')
      then have lg: "log st = [count_line (length (files st)), Makedirs dest_dir]"
        and fs: "fsys st = fs"
        using run_cell3_failure(3,4) [of cd fs e st] assms Some by simp_all
      have "calls (log st) = []"
        by (simp add: lg count_line_def)
      then have "prefix [] ?xs \<and> (err = None \<longrightarrow> [] = ?xs)
            \<and> prefix (concat (map step_events [])) (calls (log st))
            \<and> prefix (calls (log st)) (concat (map step_events ?xs))
            \<and> (err = None \<longrightarrow> calls (log st) = concat (map step_events ?xs))
            \<and> (\<forall>f\<in>set []. ?on_disk st f)
            \<and> (\<forall>f\<in>set ?xs. f \<notin> set []
                  \<longrightarrow> map_of (fsys st) (dst_name f) = map_of fs (dst_name f))"
        using Some by (simp add: fs)
      then show ?thesis by blast
    qed
  qed
  have steps: "\<exists>s. loop cd (before_loop fs) (take k ?xs) = (None, s)
              \<and> calls (log s) = concat (map step_events (take k ?xs))
              \<and> (\<forall>f\<in>set (take k ?xs). ?on_disk s f)
              \<and> (\<forall>f\<in>set (drop k ?xs). map_of (fsys s) (dst_name f) = map_of fs (dst_name f))"
    if "err = None" for k
  proof -
    have "run cd fs = (None, st)"
      using assms that by simp
    then obtain s' where "loop cd (before_loop fs) ?xs = (None, s')"
      by (auto simp: run_None)
    then have "loop cd (before_loop fs) (take k ?xs @ drop k ?xs) = (None, s')"
      by simp
    then obtain s where l: "loop cd (before_loop fs) (take k ?xs) = (None, s)"
      using loop_append_None by blast
    have "calls (log s) = concat (map step_events (take k ?xs))"
      using loop_success_log [OF l] by (simp add: calls_append calls_steps cb)
    moreover have "(\<forall>f\<in>set (take k ?xs). ?on_disk s f)
         \<and> (\<forall>f\<in>set (drop k ?xs). map_of (fsys s) (dst_name f) = map_of fs (dst_name f))"
      by (rule loop_prefix_state [OF l]) (use dis cbf in simp_all)
    ultimately show ?thesis using l by blast
  qed
  show ?thesis
    using sd main steps unfolding f by blast
qed

theorem files_processed_in_sorted_order_witness:
  "fst (run toy_codec [(''c.cbf'', File ''cc''), (''a.cbf'', File ''aa''), (''b.cbf'', File ''bb'')])
     = None
   \<and> files (snd (run toy_codec
        [(''c.cbf'', File ''cc''), (''a.cbf'', File ''aa''), (''b.cbf'', File ''bb'')]))
     = [''a.cbf'', ''b.cbf'', ''c.cbf'']
   \<and> calls (log (snd (run toy_codec
        [(''c.cbf'', File ''cc''), (''a.cbf'', File ''aa''), (''b.cbf'', File ''bb'')])))
     = [Open ''a.cbf'', Convert ''edf'', Save ''edf_format/a.edf'',
        Open ''b.cbf'', Convert ''edf'', Save ''edf_format/b.edf'',
        Open ''c.cbf'', Convert ''edf'', Save ''edf_format/c.edf'']
   \<and> fsys (snd (run toy_codec
        [(''c.cbf'', File ''cc''), (''a.cbf'', File ''aa''), (''b.cbf'', File ''bb'')]))
     = [(''c.cbf'', File ''cc''), (''a.cbf'', File ''aa''), (''b.cbf'', File ''bb''),
        (''edf_format'', Dir), (''edf_format/a.edf'', File ''edf:aa''),
        (''edf_format/b.edf'', File ''edf:bb''), (''edf_format/c.edf'', File ''edf:cc'')]
   \<and> map (map_of (fsys (snd (loop toy_codec
        (before_loop [(''c.cbf'', File ''cc''), (''a.cbf'', File ''aa''), (''b.cbf'', File ''bb'')])
        [''a.cbf'']))))
        [''edf_format/a.edf'', ''edf_format/b.edf'', ''edf_format/c.edf'']
     = [Some (File ''edf:aa''), None, None]
   \<and> map (map_of (fsys (snd (loop toy_codec
        (before_loop [(''c.cbf'', File ''cc''), (''a.cbf'', File ''aa''), (''b.cbf'', File ''bb'')])
        [''a.cbf'', ''b.cbf'']))))
        [''edf_format/a.edf'', ''edf_format/b.edf'', ''edf_format/c.edf'']
     = [Some (File ''edf:aa''), Some (File ''edf:bb''), None]"
proof -
  let ?fs = "[(''c.cbf'', File ''cc''), (''a.cbf'', File ''aa''), (''b.cbf'', File ''bb'')]"
  have e: "fst (run toy_codec ?fs) = None"
    by code_simp
  have g: "sort (glob ?fs ''*.cbf'') = [''a.cbf'', ''b.cbf'', ''c.cbf'']"
    by code_simp
  have s: "concat (map step_events [''a.cbf'', ''b.cbf'', ''c.cbf''])
      = [Open ''a.cbf'', Convert ''edf'', Save ''edf_format/a.edf'',
         Open ''b.cbf'', Convert ''edf'', Save ''edf_format/b.edf'',
         Open ''c.cbf'', Convert ''edf'', Save ''edf_format/c.edf'']"
    by code_simp
  have d: "fsys (snd (run toy_codec ?fs))
     = [(''c.cbf'', File ''cc''), (''a.cbf'', File ''aa''), (''b.cbf'', File ''bb''),
        (''edf_format'', Dir), (''edf_format/a.edf'', File ''edf:aa''),
        (''edf_format/b.edf'', File ''edf:bb''), (''edf_format/c.edf'', File ''edf:cc'')]"
    by code_simp
  have k1: "map (map_of (fsys (snd (loop toy_codec (before_loop ?fs) [''a.cbf'']))))
        [''edf_format/a.edf'', ''edf_format/b.edf'', ''edf_format/c.edf'']
     = [Some (File ''edf:aa''), None, None]"
    by code_simp
  have k2: "map (map_of (fsys (snd (loop toy_codec (before_loop ?fs) [''a.cbf'', ''b.cbf'']))))
        [''edf_format/a.edf'', ''edf_format/b.edf'', ''edf_format/c.edf'']
     = [Some (File ''edf:aa''), Some (File ''edf:bb''), None]"
    by code_simp
  have r: "run toy_codec ?fs = (fst (run toy_codec ?fs), snd (run toy_codec ?fs))"
    by simp
  have "files (snd (run toy_codec ?fs)) = sort (glob ?fs ''*.cbf'')"
    and "fst (run toy_codec ?fs) = None
      \<longrightarrow> calls (log (snd (run toy_codec ?fs)))
          = concat (map step_events (files (snd (run toy_codec ?fs))))"
    using files_processed_in_sorted_order [OF r] by blast+
  then show ?thesis
    using e g s d k1 k2 by simp
qed

text \<open>
  C3. For every input file of the run, the destination path is the destination
  directory joined with the name of the file, its extension stripped, followed by a dot
  and the destination format: \<open>x.cbf\<close> maps to \<open>edf_format/x.edf\<close>. The files of the
  run are names of the current directory, so a name is its own base name.
\<close>

theorem destination_path_of_input:
  assumes "onefile \<in> set (files (snd (run cd fs)))"
  shows "\<exists>stem. onefile = stem @ ''.cbf'' \<and> CHR ''/'' \<notin> set onefile
           \<and> splitext onefile = (stem, ''.cbf'')
           \<and> dst_name onefile = dest_dir @ ''/'' @ stem @ ''.'' @ dest_format"
proof -
  have c: "cbf_name onefile"
    using assms by (simp add: run_files glob_cbf_names)
  then obtain stem where n: "onefile = stem @ ''.cbf''" and ne: "stem \<noteq> []"
    and h: "hd stem \<noteq> CHR ''.''" and s: "CHR ''/'' \<notin> set stem"
    by (elim cbf_name_stem)
  have "splitext onefile = (stem, ''.cbf'')"
    unfolding n by (rule splitext_cbf [OF ne h s])
  moreover have "dst_name onefile = dest_dir @ ''/'' @ stem @ ''.'' @ dest_format"
    unfolding n by (simp add: dst_name_cbf [OF ne h s] dest_dir_def dest_format_def)
  moreover have "CHR ''/'' \<notin> set onefile"
    using c by (simp add: cbf_name_def)
  ultimately show ?thesis using n by blast
qed

theorem destination_path_of_input_witness:
  "''x.cbf'' \<in> set (files (snd (run toy_codec [(''x.cbf'', File ''xx'')])))
   \<and> dst_name ''x.cbf'' = ''edf_format/x.edf''"
proof -
  have m: "''x.cbf'' \<in> set (files (snd (run toy_codec [(''x.cbf'', File ''xx'')])))"
    by code_simp
  from destination_path_of_input [OF m] obtain stem where
    "''x.cbf'' = stem @ ''.cbf''"
    and d: "dst_name ''x.cbf'' = dest_dir @ ''/'' @ stem @ ''.'' @ dest_format"
    by blast
  then have "stem = ''x''" by simp
  then show ?thesis
    using m d by (simp add: dest_dir_def dest_format_def)
qed

text \<open>
  C4. After a run that completes without failure there is exactly one output file per
  input file: one save per input, to the destination directory, under the name of the
  input with the destination extension; different inputs are saved to different paths;
  each output is a file of the final file system and holds the conversion of its input;
  and no other path of the file system has changed, the destination directory apart.
\<close>

theorem one_output_per_input:
  assumes "run cd fs = (None, st)"
  shows "saved (log st) = map dst_name (files st)
       \<and> distinct (map dst_name (files st))
       \<and> (\<forall>f\<in>set (files st). \<exists>stem b data.
             f = stem @ ''.cbf'' \<and> dst_name f = dest_dir @ ''/'' @ stem @ ''.'' @ dest_format
             \<and> map_of fs f = Some (File b) \<and> transcode cd b = Some data
             \<and> map_of (fsys st) (dst_name f) = Some (File data))
       \<and> (files st \<noteq> [] \<longrightarrow> map_of (fsys st) dest_dir = Some Dir)
       \<and> (\<forall>p. p \<notin> dst_name ` set (files st) \<longrightarrow> p \<noteq> dest_dir
             \<longrightarrow> map_of (fsys st) p = map_of fs p)"
proof -
  let ?xs = "sort (glob fs ''*.cbf'')"
  from assms obtain s where l: "loop cd (before_loop fs) ?xs = (None, s)" and st: "st = cell5 s"
    by (auto simp: run_None)
  have f: "files st = ?xs"
    using run_files [of cd fs] assms by simp
  have cbf: "\<forall>x\<in>set ?xs. cbf_name x"
    by (simp add: glob_cbf_names)
  have dis: "distinct ?xs"
    by (simp add: glob_cbf_distinct)
  have fsy: "fsys st = fsys s"
    by (simp add: st fsys_cell5)
  have start: "map_of (fsys (before_loop fs)) p = map_of fs p" if "p \<noteq> dest_dir" for p
    using that by (simp add: before_loop_eq map_add_def split: option.splits)
  have 1: "saved (log st) = map dst_name (files st)"
    using run_success_log [OF assms]
    by (simp add: saved_append saved_steps count_line_def speed_line_def)
  have 2: "distinct (map dst_name (files st))"
    unfolding f distinct_map using dis cbf by (auto intro!: inj_onI dst_name_inj)
  have 3: "\<exists>stem b data.
             g = stem @ ''.cbf'' \<and> dst_name g = dest_dir @ ''/'' @ stem @ ''.'' @ dest_format
             \<and> map_of fs g = Some (File b) \<and> transcode cd b = Some data
             \<and> map_of (fsys st) (dst_name g) = Some (File data)"
    if g: "g \<in> set (files st)" for g
  proof -
    have gx: "g \<in> set ?xs" using g f by simp
    then have cg: "cbf_name g" using cbf by blast
    obtain b data where o: "map_of (fsys (before_loop fs)) g = Some (File b)"
      "transcode cd b = Some data" "map_of (fsys s) (dst_name g) = Some (File data)"
      using loop_success_outputs [OF l dis cbf gx] by blast
    have "g \<noteq> dest_dir" using cg dest_dir_not_cbf by auto
    then have i: "map_of fs g = Some (File b)" using o(1) start by simp
    obtain stem where "g = stem @ ''.cbf''" "dst_name g = ''edf_format/'' @ stem @ ''.edf''"
      using cg by (elim cbf_name_dst)
    then have "g = stem @ ''.cbf'' \<and> dst_name g = dest_dir @ ''/'' @ stem @ ''.'' @ dest_format"
      by (simp add: dest_dir_def dest_format_def)
    then show ?thesis using i o(2,3) fsy by auto
  qed
  have frame: "map_of (fsys st) p = map_of (fsys (before_loop fs)) p"
    if "p \<notin> dst_name ` set (files st)" for p
    using loop_success_frame [OF l, of p] that f fsy by simp
  have nd: "dest_dir \<notin> dst_name ` set (files st)"
    using cbf f dst_name_not_dest_dir by force
  have 4: "files st \<noteq> [] \<longrightarrow> map_of (fsys st) dest_dir = Some Dir"
    using loop_success_dest_dir [OF l _ cbf] frame [OF nd] f by auto
  have 5: "\<forall>p. p \<notin> dst_name ` set (files st) \<longrightarrow> p \<noteq> dest_dir
             \<longrightarrow> map_of (fsys st) p = map_of fs p"
    using frame start by simp
  show ?thesis using 1 2 3 4 5 by blast
qed

theorem one_output_per_input_witness:
  "fst (run toy_codec [(''c.cbf'', File ''cc''), (''a.cbf'', File ''aa''), (''b.cbf'', File ''bb'')])
     = None
   \<and> saved (log (snd (run toy_codec
        [(''c.cbf'', File ''cc''), (''a.cbf'', File ''aa''), (''b.cbf'', File ''bb'')])))
     = [''edf_format/a.edf'', ''edf_format/b.edf'', ''edf_format/c.edf'']
   \<and> distinct [''edf_format/a.edf'', ''edf_format/b.edf'', ''edf_format/c.edf'']
   \<and> map (map_of (fsys (snd (run toy_codec
        [(''c.cbf'', File ''cc''), (''a.cbf'', File ''aa''), (''b.cbf'', File ''bb'')]))))
        [''edf_format/a.edf'', ''edf_format/b.edf'', ''edf_format/c.edf'', ''edf_format'']
     = [Some (File ''edf:aa''), Some (File ''edf:bb''), Some (File ''edf:cc''), Some Dir]"
proof -
  let ?fs = "[(''c.cbf'', File ''cc''), (''a.cbf'', File ''aa''), (''b.cbf'', File ''bb'')]"
  have e: "fst (run toy_codec ?fs) = None"
    by code_simp
  then have r: "run toy_codec ?fs = (None, snd (run toy_codec ?fs))"
    by (simp add: prod_eq_iff)
  have f: "map dst_name (files (snd (run toy_codec ?fs)))
      = [''edf_format/a.edf'', ''edf_format/b.edf'', ''edf_format/c.edf'']"
    by code_simp
  have c: "map (map_of (fsys (snd (run toy_codec ?fs))))
        [''edf_format/a.edf'', ''edf_format/b.edf'', ''edf_format/c.edf'', ''edf_format'']
     = [Some (File ''edf:aa''), Some (File ''edf:bb''), Some (File ''edf:cc''), Some Dir]"
    by code_simp
  have "saved (log (snd (run toy_codec ?fs))) = map dst_name (files (snd (run toy_codec ?fs)))"
    and "distinct (map dst_name (files (snd (run toy_codec ?fs))))"
    using one_output_per_input [OF r] by blast+
  then show ?thesis
    using e c unfolding f by simp
qed

text \<open>
  C8. The file set is enumerated once, before any conversion starts, and is immutable
  for the rest of the run: no cell after the first changes the list bound to
  \<open>files\<close>, no step of the loop does, the loop of cell 4 visits the list it was given,
  element by element, and the list at the end of the run is still the sorted listing of
  the file system the run started from, of which the files opened are an initial
  segment in the same order.
\<close>

theorem file_set_fixed_after_enumeration:
  "files (snd (cell3 s)) = files s
   \<and> files (snd (convert_one cd s onefile)) = files s
   \<and> cell4 cd s = loop cd s (files s)
   \<and> files (snd (cell4 cd s)) = files s
   \<and> files (cell5 s) = files s
   \<and> files (snd (run cd fs)) = sort (glob fs ''*.cbf'')
   \<and> prefix (opened (log (snd (run cd fs)))) (sort (glob fs ''*.cbf''))"
proof -
  have "prefix (opened (log (snd (run cd fs)))) (files (snd (run cd fs)))"
    using run_opened [of cd fs "fst (run cd fs)" "snd (run cd fs)"] by simp
  then show ?thesis
    by (simp add: cell3_files convert_one_files cell4_loop loop_files files_cell5 run_files)
qed

theorem file_set_fixed_after_enumeration_witness:
  "files (snd (run toy_codec [(''c.cbf'', File ''cc''), (''a.cbf'', File ''aa'')]))
     = [''a.cbf'', ''c.cbf'']
   \<and> glob (fsys (snd (run toy_codec [(''c.cbf'', File ''cc''), (''a.cbf'', File ''aa'')]))) ''*''
     = [''c.cbf'', ''a.cbf'', ''edf_format'']
   \<and> opened (log (snd (run toy_codec [(''c.cbf'', File ''cc''), (''a.cbf'', File ''aa'')])))
     = [''a.cbf'', ''c.cbf'']"
proof -
  let ?fs = "[(''c.cbf'', File ''cc''), (''a.cbf'', File ''aa'')]"
  have g: "sort (glob ?fs ''*.cbf'') = [''a.cbf'', ''c.cbf'']"
    by code_simp
  have l: "glob (fsys (snd (run toy_codec ?fs))) ''*'' = [''c.cbf'', ''a.cbf'', ''edf_format'']"
    by code_simp
  have o: "opened (log (snd (run toy_codec ?fs))) = [''a.cbf'', ''c.cbf'']"
    by code_simp
  show ?thesis
    using file_set_fixed_after_enumeration [of _ toy_codec _ ?fs] g l o by simp
qed



text \<open>
  C6, as the code has it. Before any conversion begins the destination path is tested
  once with \<open>os.path.exists\<close>, and \<open>os.makedirs\<close> is called at most once in the whole
  run: exactly when the test fails. If a directory stands at the path, nothing is
  created and nothing is raised. If nothing stands there and the operating system allows
  it, the directory is created and the run goes on; the directory then exists when the
  loop starts and when the run ends. If the creation fails, because a broken link stands
  at the path or the operating system refuses, its error ends the run before any file is
  opened. If a regular file stands at the path, nothing is created, nothing is raised by
  the cell, and no directory exists at the path.
\<close>

theorem destination_directory_ensured:
  "created (log (snd (run cd fs))) = (if path_exists fs dest_dir then [] else [dest_dir])
   \<and> opened (log (before_loop fs)) = []
   \<and> (map_of fs dest_dir = Some Dir \<longrightarrow>
         cell3 (cell1 (init fs)) = (None, cell1 (init fs))
         \<and> map_of (fsys (snd (run cd fs))) dest_dir = Some Dir)
   \<and> (map_of fs dest_dir = None \<longrightarrow>
         cell3 (cell1 (init fs)) = (None, before_loop fs)
         \<and> fsys (before_loop fs) = fs @ [(dest_dir, Dir)]
         \<and> map_of (fsys (before_loop fs)) dest_dir = Some Dir
         \<and> map_of (fsys (snd (run cd fs))) dest_dir = Some Dir)
   \<and> (\<forall>b. map_of fs dest_dir = Some (File b) \<longrightarrow>
         cell3 (cell1 (init fs)) = (None, cell1 (init fs))
         \<and> map_of (fsys (snd (run cd fs))) dest_dir = Some (File b))
   \<and> (map_of fs dest_dir = Some BrokenLink \<longrightarrow>
         run cd fs = (Some FileExistsError, emit (Makedirs dest_dir) (cell1 (init fs))))
   \<and> (\<forall>e. map_of fs dest_dir = Some (Refused e) \<longrightarrow>
         run cd fs = (Some e, emit (Makedirs dest_dir) (cell1 (init fs))))"
proof -
  have f1: "fsys (cell1 (init fs)) = fs"
    by (simp add: cell1_init)
  have seen: "cell3 (cell1 (init fs)) = (None, cell1 (init fs))
         \<and> map_of (fsys (snd (run cd fs))) dest_dir = Some en"
    if "map_of fs dest_dir = Some en" and "en = Dir \<or> (\<exists>b. en = File b)" for en
  proof -
    have "path_exists (fsys (cell1 (init fs))) dest_dir"
      using that by (auto simp: f1 path_exists_def)
    then have "cell3 (cell1 (init fs)) = (None, cell1 (init fs))"
      by (rule cell3_exists)
    moreover have "map_of (fsys (before_loop fs)) dest_dir = Some en"
      using that(1) by (simp add: before_loop_eq)
    ultimately show ?thesis
      by (simp add: run_dest_dir)
  qed
  have absent: "cell3 (cell1 (init fs)) = (None, before_loop fs)
         \<and> fsys (before_loop fs) = fs @ [(dest_dir, Dir)]
         \<and> map_of (fsys (before_loop fs)) dest_dir = Some Dir
         \<and> map_of (fsys (snd (run cd fs))) dest_dir = Some Dir"
    if n: "map_of fs dest_dir = None"
  proof -
    have "cell3_raises fs = None"
      using n by (simp add: cell3_raises_def)
    then have "cell3 (cell1 (init fs)) = (None, before_loop fs)"
      by (simp add: cell3_init)
    moreover have "fsys (before_loop fs) = fs @ [(dest_dir, Dir)]"
      using n by (simp add: before_loop_eq)
    moreover have "map_of (fs @ [(dest_dir, Dir)]) dest_dir = Some Dir"
      using n by (simp add: map_add_def)
    ultimately show ?thesis
      by (simp add: run_dest_dir)
  qed
  have broken: "run cd fs = (Some FileExistsError, emit (Makedirs dest_dir) (cell1 (init fs)))"
    if "map_of fs dest_dir = Some BrokenLink"
    using that cell3_broken_link [of "cell1 (init fs)"] by (simp add: run_def f1)
  have refused: "run cd fs = (Some e, emit (Makedirs dest_dir) (cell1 (init fs)))"
    if "map_of fs dest_dir = Some (Refused e)" for e
    using that cell3_refused [of "cell1 (init fs)" e] by (simp add: run_def f1)
  show ?thesis
    using seen absent broken refused run_created [of cd fs] opened_before_loop [of fs]
    by blast
qed

theorem destination_directory_ensured_witness:
  "run toy_codec [(''a.cbf'', File ''aa'')]
     = (None,
        \<lparr>fsys = [(''a.cbf'', File ''aa''), (''edf_format'', Dir),
                 (''edf_format/a.edf'', File ''edf:aa'')],
         files = [''a.cbf''],
         log = [Print ''Number of files: 1'', Makedirs ''edf_format'',
                Open ''a.cbf'', Convert ''edf'', Save ''edf_format/a.edf'',
                Print ''The overall speed is 0.2 frame/second'']\<rparr>)
   \<and> created (log (snd (run toy_codec [(''a.cbf'', File ''aa'')]))) = [''edf_format'']
   \<and> map_of (fsys (snd (run toy_codec [(''a.cbf'', File ''aa'')]))) ''edf_format'' = Some Dir
   \<and> created (log (snd (run toy_codec [(''a.cbf'', File ''aa''), (''edf_format'', Dir)]))) = []
   \<and> map_of (fsys (snd (run toy_codec [(''a.cbf'', File ''aa''), (''edf_format'', Dir)])))
        ''edf_format'' = Some Dir
   \<and> run toy_codec [(''a.cbf'', File ''aa''), (''edf_format'', Refused PermissionError)]
     = (Some PermissionError,
        \<lparr>fsys = [(''a.cbf'', File ''aa''), (''edf_format'', Refused PermissionError)],
         files = [''a.cbf''],
         log = [Print ''Number of files: 1'', Makedirs ''edf_format'']\<rparr>)
   \<and> run toy_codec [(''a.cbf'', File ''aa''), (''edf_format'', BrokenLink)]
     = (Some FileExistsError,
        \<lparr>fsys = [(''a.cbf'', File ''aa''), (''edf_format'', BrokenLink)],
         files = [''a.cbf''],
         log = [Print ''Number of files: 1'', Makedirs ''edf_format'']\<rparr>)"
proof -
  let ?fs = "[(''a.cbf'', File ''aa'')]"
  let ?fd = "[(''a.cbf'', File ''aa''), (''edf_format'', Dir)]"
  let ?fr = "[(''a.cbf'', File ''aa''), (''edf_format'', Refused PermissionError)]"
  let ?fl = "[(''a.cbf'', File ''aa''), (''edf_format'', BrokenLink)]"
  have a: "map_of ?fs dest_dir = None" and n: "\<not> path_exists ?fs dest_dir"
    by (simp_all add: dest_dir_def path_exists_def)
  have a': "map_of ?fd dest_dir = Some Dir" and n': "path_exists ?fd dest_dir"
    by (simp_all add: dest_dir_def path_exists_def)
  have ar: "map_of ?fr dest_dir = Some (Refused PermissionError)"
    by (simp add: dest_dir_def)
  have al: "map_of ?fl dest_dir = Some BrokenLink"
    by (simp add: dest_dir_def)
  have r: "run toy_codec ?fs
     = (None,
        \<lparr>fsys = [(''a.cbf'', File ''aa''), (''edf_format'', Dir),
                 (''edf_format/a.edf'', File ''edf:aa'')],
         files = [''a.cbf''],
         log = [Print ''Number of files: 1'', Makedirs ''edf_format'',
                Open ''a.cbf'', Convert ''edf'', Save ''edf_format/a.edf'',
                Print ''The overall speed is 0.2 frame/second'']\<rparr>)"
    by code_simp
  have e: "emit (Makedirs dest_dir) (cell1 (init ?fr))
      = \<lparr>fsys = ?fr, files = [''a.cbf''],
         log = [Print ''Number of files: 1'', Makedirs ''edf_format'']\<rparr>"
    "emit (Makedirs dest_dir) (cell1 (init ?fl))
      = \<lparr>fsys = ?fl, files = [''a.cbf''],
         log = [Print ''Number of files: 1'', Makedirs ''edf_format'']\<rparr>"
    by code_simp+
  have 1: "created (log (snd (run toy_codec ?fs))) = [dest_dir]"
    "map_of (fsys (snd (run toy_codec ?fs))) dest_dir = Some Dir"
    using destination_directory_ensured [of toy_codec ?fs] a n by simp_all
  have 2: "created (log (snd (run toy_codec ?fd))) = []"
    "map_of (fsys (snd (run toy_codec ?fd))) dest_dir = Some Dir"
    using destination_directory_ensured [of toy_codec ?fd] a' n' by simp_all
  have 3: "run toy_codec ?fr = (Some PermissionError, emit (Makedirs dest_dir) (cell1 (init ?fr)))"
    using destination_directory_ensured [of toy_codec ?fr] ar by blast
  have 4: "run toy_codec ?fl = (Some FileExistsError, emit (Makedirs dest_dir) (cell1 (init ?fl)))"
    using destination_directory_ensured [of toy_codec ?fl] al by blast
  show ?thesis
    using r 1 2 3 4 unfolding e by (simp add: dest_dir_def)
qed

text \<open>
  C6 as stated fails in two ways. With a regular file at the destination path the test
  finds the path, nothing is created, no directory exists there when the loop starts, and
  the first save fails. With nothing at the path in a directory that is not writable the
  creation is attempted and raises.
\<close>

theorem destination_directory_ensured_counterexample:
  "\<not> (map_of (fsys (before_loop [(''edf_format'', File ''x''), (''a.cbf'', File ''aa'')]))
         dest_dir = Some Dir)
   \<and> created (log (snd (run toy_codec [(''edf_format'', File ''x''), (''a.cbf'', File ''aa'')])))
       = []
   \<and> fst (run toy_codec [(''edf_format'', File ''x''), (''a.cbf'', File ''aa'')])
       = Some NotADirectoryError
   \<and> \<not> path_exists [(''edf_format'', Refused PermissionError), (''a.cbf'', File ''aa'')] dest_dir
   \<and> run toy_codec [(''edf_format'', Refused PermissionError), (''a.cbf'', File ''aa'')]
       = (Some PermissionError,
          \<lparr>fsys = [(''edf_format'', Refused PermissionError), (''a.cbf'', File ''aa'')],
           files = [''a.cbf''],
           log = [Print ''Number of files: 1'', Makedirs ''edf_format'']\<rparr>)"
  by code_simp




text \<open>
  C10, as the code has it. When the pattern matches no file and cell 3 raises nothing,
  that is when a file or a directory stands at the destination path or nothing stands
  there and the directory can be created, the run completes without error: the count
  \<open>0\<close> is printed, the destination directory is created if nothing stands at its
  path, the loop opens nothing, and the speed \<open>0.0\<close> is reported.
\<close>

theorem empty_file_set_completes:
  assumes "glob fs ''*.cbf'' = []"
    and "path_exists fs dest_dir \<or> map_of fs dest_dir = None"
  shows "run cd fs =
     (None,
      \<lparr>fsys = (if path_exists fs dest_dir then fs else fs @ [(dest_dir, Dir)]),
       files = [],
       log = [Print ''Number of files: 0'']
             @ (if path_exists fs dest_dir then [] else [Makedirs dest_dir])
             @ [Print ''The overall speed is 0.0 frame/second'']\<rparr>)"
proof -
  have c3: "cell3_raises fs = None"
    using assms(2) by (simp add: cell3_ok_iff)
  have "(map_of fs dest_dir = None) = (\<not> path_exists fs dest_dir)"
    by (rule cell3_ok_absent [OF c3])
  then show ?thesis
    using assms(1) c3
    by (simp add: run_loop before_loop_eq cell5_def emit_def overall_speed_def str_nat_0 fmt_1f_0)
qed

theorem empty_file_set_completes_witness:
  "glob [(''notes.txt'', File ''n''), (''.hidden.cbf'', File ''h'')] ''*.cbf'' = []
   \<and> run toy_codec [(''notes.txt'', File ''n''), (''.hidden.cbf'', File ''h'')] =
     (None,
      \<lparr>fsys = [(''notes.txt'', File ''n''), (''.hidden.cbf'', File ''h''), (''edf_format'', Dir)],
       files = [],
       log = [Print ''Number of files: 0'', Makedirs ''edf_format'',
              Print ''The overall speed is 0.0 frame/second'']\<rparr>)"
proof -
  let ?fs = "[(''notes.txt'', File ''n''), (''.hidden.cbf'', File ''h'')]"
  have g: "glob ?fs ''*.cbf'' = []"
    by code_simp
  have n: "\<not> path_exists ?fs dest_dir" and a: "map_of ?fs dest_dir = None"
    by (simp_all add: path_exists_def dest_dir_def)
  then have h: "path_exists ?fs dest_dir \<or> map_of ?fs dest_dir = None"
    by simp
  show ?thesis
    using empty_file_set_completes [OF g h, of toy_codec] g n by (simp add: dest_dir_def)
qed

text \<open>
  C10 as stated fails when the creation of the destination directory fails: with no
  match and nothing at the path in a directory that is not writable, cell 3 raises and
  the run ends after the first printed line.
\<close>

theorem empty_file_set_completes_counterexample:
  "glob [(''notes.txt'', File ''n''), (''edf_format'', Refused PermissionError)] ''*.cbf'' = []
   \<and> run toy_codec [(''notes.txt'', File ''n''), (''edf_format'', Refused PermissionError)] =
     (Some PermissionError,
      \<lparr>fsys = [(''notes.txt'', File ''n''), (''edf_format'', Refused PermissionError)],
       files = [],
       log = [Print ''Number of files: 0'', Makedirs ''edf_format'']\<rparr>)"
  by code_simp

text \<open>
  C7. Running the batch a second time, on the file system the first run left, gives the
  same set of output files: the second run completes, visits the same files, saves to the
  same paths, and leaves the file system as it found it, every destination rewritten
  with the bytes it already held. The codec is a function of its input, which is the
  determinism the claim assumes.
\<close>

theorem second_run_same_outputs:
  assumes "run cd fs = (None, st)"
  shows "fst (run cd (fsys st)) = None
       \<and> fsys (snd (run cd (fsys st))) = fsys st
       \<and> files (snd (run cd (fsys st))) = files st
       \<and> saved (log (snd (run cd (fsys st)))) = saved (log st)
       \<and> saved (log st) = map dst_name (files st)"
proof -
  let ?xs = "sort (glob fs ''*.cbf'')"
  from assms obtain s where l: "loop cd (before_loop fs) ?xs = (None, s)" and st: "st = cell5 s"
    and c3: "cell3_raises fs = None"
    by (auto simp: run_None)
  have f: "files st = ?xs"
    using run_files [of cd fs] assms by simp
  have cbf: "\<forall>x\<in>set ?xs. cbf_name x"
    by (simp add: glob_cbf_names)
  have dis: "distinct ?xs"
    by (simp add: glob_cbf_distinct)
  have fsy: "fsys st = fsys s"
    by (simp add: st fsys_cell5)
  have g: "glob (fsys st) ''*.cbf'' = glob fs ''*.cbf''"
    using loop_success_glob [OF l cbf] by (simp add: fsy glob_before_loop)
  have nd: "dest_dir \<notin> dst_name ` set ?xs"
    using cbf dst_name_not_dest_dir by force
  have dd: "map_of (fsys st) dest_dir = map_of (fsys (before_loop fs)) dest_dir"
    using loop_success_frame [OF l nd] by (simp add: fsy)
  then have ex: "path_exists (fsys st) dest_dir"
    using cell3_ok_exists [OF c3] by (simp add: path_exists_def)
  then have c3': "cell3_raises (fsys st) = None" and nn: "map_of (fsys st) dest_dir \<noteq> None"
    by (auto simp: cell3_ok_iff path_exists_def split: option.splits)
  let ?s0 = "before_loop (fsys st)"
  have s0: "fsys ?s0 = fsys st" "files ?s0 = ?xs"
    using nn g by (simp_all add: before_loop_eq)
  have pre: "\<exists>b data. map_of (fsys ?s0) x = Some (File b) \<and> transcode cd b = Some data
             \<and> map_of (fsys ?s0) (dst_name x) = Some (File data)
             \<and> parent_error (fsys ?s0) (dst_name x) = None" if x: "x \<in> set ?xs" for x
  proof -
    have cx: "cbf_name x" using cbf x by blast
    obtain b data where o: "map_of (fsys (before_loop fs)) x = Some (File b)"
      "transcode cd b = Some data" "map_of (fsys s) (dst_name x) = Some (File data)"
      using loop_success_outputs [OF l dis cbf x] by blast
    have "x \<notin> dst_name ` set ?xs"
      using cbf cx dst_name_not_input by force
    then have i: "map_of (fsys st) x = Some (File b)"
      using loop_success_frame [OF l, of x] o(1) by (simp add: fsy)
    have "?xs \<noteq> []" using x by (metis empty_iff empty_set)
    then have "map_of (fsys (before_loop fs)) dest_dir = Some Dir"
      using loop_success_dest_dir [OF l _ cbf] by simp
    then have "map_of (fsys st) (dirname (dst_name x)) = Some Dir"
      using dd by (simp add: dirname_dst_name [OF cx])
    then have "parent_error (fsys st) (dst_name x) = None"
      by (simp add: parent_error_def)
    then show ?thesis
      unfolding s0(1) using i o(2,3) by (simp add: fsy)
  qed
  have l2: "loop cd ?s0 ?xs = (None, ?s0\<lparr>log := log ?s0 @ concat (map step_events ?xs)\<rparr>)"
    by (rule loop_rerun) (use pre in blast)
  have r2: "run cd (fsys st) = (None, cell5 (?s0\<lparr>log := log ?s0 @ concat (map step_events ?xs)\<rparr>))"
    using l2 c3' by (simp add: run_loop g)
  have sv: "saved (log st) = map dst_name (files st)"
    using run_success_log [OF assms]
    by (simp add: saved_append saved_steps count_line_def speed_line_def)
  have sv2: "saved (log (snd (run cd (fsys st)))) = map dst_name ?xs"
    unfolding r2
    by (simp add: cell5_def emit_def saved_append saved_steps saved_before_loop)
  show ?thesis
    using sv sv2 f by (simp add: r2 fsys_cell5 files_cell5 s0)
qed

theorem second_run_same_outputs_witness:
  "fst (run toy_codec [(''b.cbf'', File ''bb''), (''a.cbf'', File ''aa'')]) = None
   \<and> fsys (snd (run toy_codec [(''b.cbf'', File ''bb''), (''a.cbf'', File ''aa'')]))
       = [(''b.cbf'', File ''bb''), (''a.cbf'', File ''aa''), (''edf_format'', Dir),
          (''edf_format/a.edf'', File ''edf:aa''), (''edf_format/b.edf'', File ''edf:bb'')]
   \<and> run toy_codec
        [(''b.cbf'', File ''bb''), (''a.cbf'', File ''aa''), (''edf_format'', Dir),
         (''edf_format/a.edf'', File ''edf:aa''), (''edf_format/b.edf'', File ''edf:bb'')]
       = (None,
          \<lparr>fsys = [(''b.cbf'', File ''bb''), (''a.cbf'', File ''aa''), (''edf_format'', Dir),
                   (''edf_format/a.edf'', File ''edf:aa''),
                   (''edf_format/b.edf'', File ''edf:bb'')],
           files = [''a.cbf'', ''b.cbf''],
           log = [Print ''Number of files: 2'',
                  Open ''a.cbf'', Convert ''edf'', Save ''edf_format/a.edf'',
                  Open ''b.cbf'', Convert ''edf'', Save ''edf_format/b.edf'',
                  Print ''The overall speed is 0.4 frame/second'']\<rparr>)"
proof -
  let ?fs = "[(''b.cbf'', File ''bb''), (''a.cbf'', File ''aa'')]"
  have e: "fst (run toy_codec ?fs) = None"
    by code_simp
  then have r: "run toy_codec ?fs = (None, snd (run toy_codec ?fs))"
    by (simp add: prod_eq_iff)
  have s: "fsys (snd (run toy_codec ?fs))
       = [(''b.cbf'', File ''bb''), (''a.cbf'', File ''aa''), (''edf_format'', Dir),
          (''edf_format/a.edf'', File ''edf:aa''), (''edf_format/b.edf'', File ''edf:bb'')]"
    by code_simp
  have t: "run toy_codec
        [(''b.cbf'', File ''bb''), (''a.cbf'', File ''aa''), (''edf_format'', Dir),
         (''edf_format/a.edf'', File ''edf:aa''), (''edf_format/b.edf'', File ''edf:bb'')]
       = (None,
          \<lparr>fsys = [(''b.cbf'', File ''bb''), (''a.cbf'', File ''aa''), (''edf_format'', Dir),
                   (''edf_format/a.edf'', File ''edf:aa''),
                   (''edf_format/b.edf'', File ''edf:bb'')],
           files = [''a.cbf'', ''b.cbf''],
           log = [Print ''Number of files: 2'',
                  Open ''a.cbf'', Convert ''edf'', Save ''edf_format/a.edf'',
                  Open ''b.cbf'', Convert ''edf'', Save ''edf_format/b.edf'',
                  Print ''The overall speed is 0.4 frame/second'']\<rparr>)"
    by code_simp
  show ?thesis
    using second_run_same_outputs [OF r] e s t by simp
qed

text \<open>
  C1. The speed that cell 5 prints is the number of files divided by the literal
  \<open>5.64\<close>; the time the loop took is not an input of the computation. On the run
  recorded in the notebook (18 files, wall time 1.06 s) it prints \<open>3.2\<close>, where the
  number of files divided by the elapsed seconds prints as \<open>17.0\<close>.
\<close>

theorem speed_divides_by_literal:
  "log (cell5 \<lparr>fsys = [], files = replicate 18 ''x.cbf'', log = []\<rparr>)
     = [Print ''The overall speed is 3.2 frame/second'']
   \<and> overall_speed 18 = 18 / (564 / 100)
   \<and> fmt_1f (18 / (106 / 100)) = ''17.0''"
  by code_simp

end
